theory Spec2Isabelle
  imports Main "HOL-Library.Word"
begin

unbundle bit_operations_syntax

section \<open>Machine types and failures\<close>

text \<open>
  The translation layer works on \<^verbatim>\<open>UINT64\<close> fence values and counters and on
  \<^verbatim>\<open>UINT32\<close>/\<^verbatim>\<open>UINT\<close> sizes and indices. Both are modelled as machine words, so
  that \<open>+\<close> and \<open>-\<close> wrap around as the C++ operators do.
\<close>

type_synonym u64 = "64 word"
type_synonym u32 = "32 word"

text \<open>
  The exceptions the source annotates (\<^verbatim>\<open>// throw( _com_error )\<close>,
  \<^verbatim>\<open>// throw( bad_alloc )\<close>) are values. \<open>undefined_behavior\<close> stands for an
  operation the C++ standard leaves undefined (dereferencing \<^verbatim>\<open>begin()\<close> of an empty
  list, a remainder by zero).
\<close>

datatype failure = com_error | bad_alloc | undefined_behavior

datatype HRESULT = S_OK | E_FAIL

section \<open>CFencePool and CBoundedFencePool\<close>

text \<open>
  \<^verbatim>\<open>typedef std::pair<UINT64, TResourceType> TPoolEntry; typedef std::list<TPoolEntry> TPool;\<close>
  The optional mutex \<^verbatim>\<open>m_pLock\<close> is not modelled: the classes assume a single
  threaded caller, and taking the lock changes no data.
\<close>

type_synonym 'r TPoolEntry = "u64 \<times> 'r"
type_synonym 'r TPool = "'r TPoolEntry list"

record 'r CFencePool =
  m_Pool :: "'r TPool"

record 'r CBoundedFencePool = "'r CFencePool" +
  m_MaxInFlightDepth :: u32

text \<open>
  \<^verbatim>\<open>m_Pool.emplace_back(FenceValue, std::move(Resource)); // throw( bad_alloc )\<close>.
  Whether the node allocation succeeds is decided by the environment: the flag
  \<open>alloc_ok\<close>. On failure nothing has been moved out of \<^verbatim>\<open>Resource\<close>.
\<close>

definition emplace_back :: "bool \<Rightarrow> 'a \<Rightarrow> 'a list \<Rightarrow> failure + 'a list" where
  "emplace_back alloc_ok x xs = (if alloc_ok then Inr (xs @ [x]) else Inl bad_alloc)"

text \<open>
  \<^verbatim>\<open>void ReturnToPool(TResourceType&& Resource, UINT64 FenceValue) noexcept\<close>.
  The result is the pool after the call together with what the caller's
  \<^verbatim>\<open>Resource\<close> object holds afterwards: \<open>None\<close> when it was moved into the pool,
  \<open>Some r\<close> when the \<^verbatim>\<open>bad_alloc\<close> was caught and the resource stays with the
  caller's \<^verbatim>\<open>unique_comptr\<close>, whose destructor releases it.
\<close>

definition ReturnToPool ::
  "bool \<Rightarrow> 'r \<Rightarrow> u64 \<Rightarrow> ('r, 'x) CFencePool_scheme \<Rightarrow> ('r, 'x) CFencePool_scheme \<times> 'r option" where
  "ReturnToPool alloc_ok Resource FenceValue this =
     (case emplace_back alloc_ok (FenceValue, Resource) (m_Pool this) of
        Inr pool' \<Rightarrow> (this\<lparr>m_Pool := pool'\<rparr>, None)
      | Inl e \<Rightarrow> (this, Some Resource))"

text \<open>
  Callbacks are passed per call. They act on the world outside the pool (the device, the
  command queue), which is threaded through as a state \<open>'w\<close>; each may throw
  \<^verbatim>\<open>_com_error\<close>.
\<close>

type_synonym ('a, 'r, 'w) PFNCreateNew = "'a \<Rightarrow> 'w \<Rightarrow> (failure + 'r) \<times> 'w"
type_synonym 'w PFNWaitForFenceValue = "u64 \<Rightarrow> 'w \<Rightarrow> (failure + unit) \<times> 'w"

text \<open>
  \<^verbatim>\<open>TResourceType CFencePool::RetrieveFromPool(UINT64 CurrentFenceValue, PFNCreateNew pfnCreateNew,
  const CreationArgType&... CreationArgs)\<close>. The debug-only \<^verbatim>\<open>assert(Head->second)\<close> is
  not a branch of the release build.
\<close>

definition RetrieveFromPool ::
  "u64 \<Rightarrow> ('a, 'r, 'w) PFNCreateNew \<Rightarrow> 'a \<Rightarrow> ('r, 'x) CFencePool_scheme \<Rightarrow> 'w
     \<Rightarrow> (failure + 'r) \<times> ('r, 'x) CFencePool_scheme \<times> 'w" where
  "RetrieveFromPool CurrentFenceValue pfnCreateNew CreationArgs this w =
     (case m_Pool this of
        [] \<Rightarrow> (case pfnCreateNew CreationArgs w of (res, w') \<Rightarrow> (res, this, w'))
      | Head # rest \<Rightarrow>
          if CurrentFenceValue < fst Head
          then (case pfnCreateNew CreationArgs w of (res, w') \<Rightarrow> (res, this, w'))
          else (Inr (snd Head), this\<lparr>m_Pool := rest\<rparr>, w))"

text \<open>
  \<^verbatim>\<open>void Trim(UINT64 TrimThreshold, UINT64 CurrentFenceValue)\<close>: erases at most the head.
\<close>

definition Trim :: "u64 \<Rightarrow> u64 \<Rightarrow> ('r, 'x) CFencePool_scheme \<Rightarrow> ('r, 'x) CFencePool_scheme" where
  "Trim TrimThreshold CurrentFenceValue this =
     (case m_Pool this of
        [] \<Rightarrow> this
      | Head # rest \<Rightarrow>
          if CurrentFenceValue < fst Head then this
          else if CurrentFenceValue - fst Head \<ge> TrimThreshold then this\<lparr>m_Pool := rest\<rparr>
          else this)"

text \<open>
  \<^verbatim>\<open>TResourceType CBoundedFencePool::RetrieveFromPool(UINT64 CurrentFenceValue,
  PFNWaitForFenceValue pfnWaitForFenceValue, PFNCreateNew pfnCreateNew, ...)\<close>.
  \<^verbatim>\<open>m_Pool.size() < m_MaxInFlightDepth\<close> compares a \<^verbatim>\<open>size_t\<close> with a \<^verbatim>\<open>UINT\<close>;
  the list length is a natural number. When the wait throws, the head has not been erased.
\<close>

definition BoundedRetrieveFromPool ::
  "u64 \<Rightarrow> 'w PFNWaitForFenceValue \<Rightarrow> ('a, 'r, 'w) PFNCreateNew \<Rightarrow> 'a
     \<Rightarrow> ('r, 'x) CBoundedFencePool_scheme \<Rightarrow> 'w
     \<Rightarrow> (failure + 'r) \<times> ('r, 'x) CBoundedFencePool_scheme \<times> 'w" where
  "BoundedRetrieveFromPool CurrentFenceValue pfnWaitForFenceValue pfnCreateNew CreationArgs this w =
     (case m_Pool this of
        [] \<Rightarrow> (case pfnCreateNew CreationArgs w of (res, w') \<Rightarrow> (res, this, w'))
      | Head # rest \<Rightarrow>
          if CurrentFenceValue < fst Head then
            (if length (m_Pool this) < unat (m_MaxInFlightDepth this)
             then (case pfnCreateNew CreationArgs w of (res, w') \<Rightarrow> (res, this, w'))
             else (case pfnWaitForFenceValue (fst Head) w of
                     (Inl e, w') \<Rightarrow> (Inl e, this, w')
                   | (Inr u, w') \<Rightarrow> (Inr (snd Head), this\<lparr>m_Pool := rest\<rparr>, w')))
          else (Inr (snd Head), this\<lparr>m_Pool := rest\<rparr>, w))"

text \<open>
  A recording world for the callbacks: every invocation appends itself to a log, so that
  the calls a retrieval makes can be counted.
\<close>

datatype call = CreateNew | WaitForFenceValue u64

definition logCreateNew :: "'r \<Rightarrow> (unit, 'r, call list) PFNCreateNew" where
  "logCreateNew fresh args w = (Inr fresh, w @ [CreateNew])"

definition logWaitForFenceValue :: "call list PFNWaitForFenceValue" where
  "logWaitForFenceValue v w = (Inr (), w @ [WaitForFenceValue v])"


section \<open>CFencedRingBuffer\<close>

text \<open>
  \<^verbatim>\<open>struct LedgerEntry { UINT64 m_FenceValue; UINT32 m_NumAllocations; };\<close>
\<close>

record LedgerEntry =
  m_FenceValue :: u64
  m_NumAllocations :: u32

text \<open>
  The members of \<^verbatim>\<open>class CFencedRingBuffer\<close>. The array
  \<^verbatim>\<open>LedgerEntry m_Ledger[cLedgerSize]\<close> is a list of \<open>cLedgerSize\<close> entries.
\<close>

record CFencedRingBuffer =
  m_Head :: u64
  m_Tail :: u64
  m_Size :: u32
  m_Ledger :: "LedgerEntry list"
  m_LedgerMask :: u32
  m_LedgerIndex :: u32

definition cLedgerSize :: nat where
  "cLedgerSize = 16"

text \<open>
  The constructor \<^verbatim>\<open>CFencedRingBuffer(UINT32 Size = 0) : m_Size(Size), m_Head(Size),
  m_Ledger{}\<close> with the default member initialisers \<^verbatim>\<open>m_Tail = 0\<close>,
  \<^verbatim>\<open>m_LedgerMask = 0x1\<close>, \<^verbatim>\<open>m_LedgerIndex = 0\<close>.
\<close>

definition new_CFencedRingBuffer :: "u32 \<Rightarrow> CFencedRingBuffer" where
  "new_CFencedRingBuffer Size =
     \<lparr>m_Head = ucast Size, m_Tail = 0, m_Size = Size,
      m_Ledger = replicate cLedgerSize \<lparr>m_FenceValue = 0, m_NumAllocations = 0\<rparr>,
      m_LedgerMask = 1, m_LedgerIndex = 0\<rparr>"

text \<open>
  \<^verbatim>\<open>inline UINT32 DereferenceTail() const { return m_Tail % m_Size; }\<close>. The remainder
  is taken in 64 bits and truncated to \<^verbatim>\<open>UINT32\<close>; with \<^verbatim>\<open>m_Size == 0\<close> it is
  undefined in C++, which is the result \<open>None\<close>.
\<close>

definition DereferenceTail :: "CFencedRingBuffer \<Rightarrow> u32 option" where
  "DereferenceTail this =
     (if m_Size this = 0 then None
      else Some (ucast (m_Tail this mod (ucast (m_Size this) :: u64))))"

text \<open>
  \<^verbatim>\<open>LedgerEntry& GetCurrentLedgeEntry() { return m_Ledger[m_LedgerIndex]; }\<close>.
  \<^verbatim>\<open>m_LedgerIndex\<close> starts at 0 and is only ever assigned a value modulo
  \<^verbatim>\<open>cLedgerSize\<close>, so the access is in range.
\<close>

definition GetCurrentLedgeEntry :: "CFencedRingBuffer \<Rightarrow> LedgerEntry" where
  "GetCurrentLedgeEntry this = m_Ledger this ! unat (m_LedgerIndex this)"

text \<open>
  \<^verbatim>\<open>bool IsLedgerEntryAvailable(UINT32 Index) const
  { return (m_LedgerMask & (1 << Index)) == 0; }\<close>
\<close>

definition IsLedgerEntryAvailable :: "CFencedRingBuffer \<Rightarrow> u32 \<Rightarrow> bool" where
  "IsLedgerEntryAvailable this Index = (m_LedgerMask this AND push_bit (unat Index) 1 = 0)"

text \<open>
  \<^verbatim>\<open>HRESULT MoveToNextLedgerEntry(UINT64 CurrentFenceValue)\<close>. The index is advanced
  before the availability test, and stays advanced when the test fails.
\<close>

definition MoveToNextLedgerEntry :: "u64 \<Rightarrow> CFencedRingBuffer \<Rightarrow> HRESULT \<times> CFencedRingBuffer" where
  "MoveToNextLedgerEntry CurrentFenceValue this =
     (let this1 = this\<lparr>m_LedgerIndex := (m_LedgerIndex this + 1) mod of_nat cLedgerSize\<rparr>
      in if IsLedgerEntryAvailable this1 (m_LedgerIndex this1)
         then (S_OK,
               this1\<lparr>m_LedgerMask := m_LedgerMask this1 OR push_bit (unat (m_LedgerIndex this1)) 1,
                      m_Ledger := (m_Ledger this1)[unat (m_LedgerIndex this1) :=
                                     \<lparr>m_FenceValue = CurrentFenceValue, m_NumAllocations = 0\<rparr>]\<rparr>)
         else (E_FAIL, this1))"

text \<open>
  The first step of \<^verbatim>\<open>Allocate\<close> for a non-zero request:
  \<^verbatim>\<open>if (CurrentFenceValue > GetCurrentLedgeEntry().m_FenceValue)
  { if (FAILED(MoveToNextLedgerEntry(CurrentFenceValue))) return E_FAIL; }\<close>
\<close>

definition Allocate_ledger :: "u64 \<Rightarrow> CFencedRingBuffer \<Rightarrow> HRESULT \<times> CFencedRingBuffer" where
  "Allocate_ledger CurrentFenceValue this =
     (if CurrentFenceValue > m_FenceValue (GetCurrentLedgeEntry this)
      then MoveToNextLedgerEntry CurrentFenceValue this
      else (S_OK, this))"

text \<open>
  The last step of \<^verbatim>\<open>Allocate\<close>:
  \<^verbatim>\<open>if (m_Tail + NumItems <= m_Head) { OffsetOut = DereferenceTail();
  GetCurrentLedgeEntry().m_NumAllocations += NumItems; m_Tail += NumItems; return S_OK; }
  else { OffsetOut = UINT32(-1); return E_FAIL; }\<close>
\<close>

definition Allocate_commit :: "u32 \<Rightarrow> CFencedRingBuffer \<Rightarrow> (HRESULT \<times> u32 \<times> CFencedRingBuffer) option" where
  "Allocate_commit NumItems this =
     (if m_Tail this + ucast NumItems \<le> m_Head this then
        (case DereferenceTail this of
           None \<Rightarrow> None
         | Some off \<Rightarrow>
             Some (S_OK, off,
               this\<lparr>m_Ledger := (m_Ledger this)[unat (m_LedgerIndex this) :=
                        (GetCurrentLedgeEntry this)\<lparr>m_NumAllocations :=
                           m_NumAllocations (GetCurrentLedgeEntry this) + NumItems\<rparr>],
                    m_Tail := m_Tail this + ucast NumItems\<rparr>))
      else Some (E_FAIL, - 1, this))"

text \<open>
  \<^verbatim>\<open>HRESULT Allocate(UINT32 NumItems, UINT64 CurrentFenceValue, _Out_ UINT32& OffsetOut)\<close>.
  The result is the \<^verbatim>\<open>HRESULT\<close>, the value of \<^verbatim>\<open>OffsetOut\<close> after the call (the
  argument \<open>OffsetOut\<close> is its value before: the early \<^verbatim>\<open>return E_FAIL\<close>s do not write
  it) and the buffer after the call. The two \<^verbatim>\<open>assert\<close>s are debug-only and are not
  branches; they are the preconditions \<open>m_Size this \<noteq> 0\<close> and
  \<open>NumItems < m_Size this div 2\<close> of the theorems below. The padding of a request that
  would straddle the end of the buffer is the recursive call, with a local \<^verbatim>\<open>dummy\<close>
  for its offset.
\<close>

function Allocate ::
  "u32 \<Rightarrow> u64 \<Rightarrow> u32 \<Rightarrow> CFencedRingBuffer \<Rightarrow> (HRESULT \<times> u32 \<times> CFencedRingBuffer) option" where
  "Allocate NumItems CurrentFenceValue OffsetOut this =
     (if NumItems = 0 then
        (case DereferenceTail this of
           None \<Rightarrow> None
         | Some off \<Rightarrow> Some (S_OK, off, this))
      else if fst (Allocate_ledger CurrentFenceValue this) = E_FAIL then
        Some (E_FAIL, OffsetOut, snd (Allocate_ledger CurrentFenceValue this))
      else
        (case DereferenceTail (snd (Allocate_ledger CurrentFenceValue this)) of
           None \<Rightarrow> None
         | Some tail32 \<Rightarrow>
            (if (ucast tail32 :: u64) + ucast NumItems
                  > ucast (m_Size (snd (Allocate_ledger CurrentFenceValue this)))
             then
               (case Allocate
                       (ucast ((ucast (m_Size (snd (Allocate_ledger CurrentFenceValue this))) :: u64)
                               - ucast tail32))
                       CurrentFenceValue 0 (snd (Allocate_ledger CurrentFenceValue this)) of
                  None \<Rightarrow> None
                | Some (hr, dummy, this2) \<Rightarrow>
                    if hr = E_FAIL then Some (E_FAIL, OffsetOut, this2)
                    else Allocate_commit NumItems this2)
             else Allocate_commit NumItems (snd (Allocate_ledger CurrentFenceValue this)))))"
  by pat_completeness auto
termination
proof (relation "measure (\<lambda>(NumItems, f, out, this). unat NumItems)")
  show "wf (measure (\<lambda>(NumItems, f, out, this). unat NumItems))"
    by simp
next
  fix NumItems :: u32 and CurrentFenceValue :: u64 and OffsetOut :: u32
    and this :: CFencedRingBuffer and tail32 :: u32
  let ?s = "snd (Allocate_ledger CurrentFenceValue this)"
  assume deref: "DereferenceTail ?s = Some tail32"
    and wrap: "(ucast tail32 :: u64) + ucast NumItems > ucast (m_Size ?s)"
  from deref have nz: "m_Size ?s \<noteq> 0"
    and t32: "tail32 = ucast (m_Tail ?s mod (ucast (m_Size ?s) :: u64))"
    by (auto simp: DereferenceTail_def split: if_splits)
  have up: "unat (ucast x :: u64) = unat x" for x :: u32
    using unsigned_less [of x, where ?'a = nat]
    by (simp add: unsigned_ucast_eq take_bit_nat_eq_self)
  have lt32: "unat x < 2 ^ 32" for x :: u32
    using unsigned_less [of x, where ?'a = nat] by simp
  have Spos: "0 < unat (m_Size ?s)"
    using nz by (simp add: unat_gt_0)
  have modlt: "unat (m_Tail ?s mod (ucast (m_Size ?s) :: u64)) < unat (m_Size ?s)"
    using Spos by (simp add: unat_mod up)
  have T: "unat tail32 = unat (m_Tail ?s mod (ucast (m_Size ?s) :: u64))"
    unfolding t32 using modlt lt32 [of "m_Size ?s"]
    by (simp add: unsigned_ucast_eq take_bit_nat_eq_self)
  have "unat tail32 + unat NumItems < 2 ^ 64"
    using lt32 [of tail32] lt32 [of NumItems] by simp
  then have sum: "unat ((ucast tail32 :: u64) + ucast NumItems) = unat tail32 + unat NumItems"
    by (simp add: unat_word_ariths up)
  from wrap have gt: "unat (m_Size ?s) < unat tail32 + unat NumItems"
    by (simp add: word_less_nat_alt sum up)
  have le: "(ucast tail32 :: u64) \<le> ucast (m_Size ?s)"
    using T modlt by (simp add: word_le_nat_alt up)
  have rem: "unat ((ucast (m_Size ?s) :: u64) - ucast tail32) = unat (m_Size ?s) - unat tail32"
    using le by (simp add: unat_sub up)
  have "unat (ucast ((ucast (m_Size ?s) :: u64) - ucast tail32) :: u32)
          = unat (m_Size ?s) - unat tail32"
    using rem lt32 [of "m_Size ?s"] by (simp add: unsigned_ucast_eq take_bit_nat_eq_self)
  with gt T modlt
  show "((ucast ((ucast (m_Size ?s) :: u64) - ucast tail32), CurrentFenceValue, 0, ?s),
         (NumItems, CurrentFenceValue, OffsetOut, this))
        \<in> measure (\<lambda>(NumItems, f, out, this). unat NumItems)"
    by simp
qed

declare Allocate.simps [simp del]

text \<open>
  \<^verbatim>\<open>void Deallocate(UINT64 CompletedFenceValue)\<close>: the body of the loop for one index
  \<open>i\<close>, up to the test of the mask.
\<close>

definition Deallocate_entry :: "u64 \<Rightarrow> nat \<Rightarrow> CFencedRingBuffer \<Rightarrow> CFencedRingBuffer" where
  "Deallocate_entry CompletedFenceValue i this =
     (let entry = m_Ledger this ! i;
          bit = (push_bit i 1 :: u32)
      in if m_LedgerMask this AND bit \<noteq> 0 \<and> m_FenceValue entry \<le> CompletedFenceValue
         then this\<lparr>m_Head := m_Head this + ucast (m_NumAllocations entry),
                   m_Ledger := (m_Ledger this)[i := \<lparr>m_FenceValue = 0, m_NumAllocations = 0\<rparr>],
                   m_LedgerMask := m_LedgerMask this AND NOT bit\<rparr>
         else this)"

text \<open>
  The loop \<^verbatim>\<open>for (size_t i = 0; i < _countof(m_Ledger); i++)\<close> over the indices still
  to visit, with its \<^verbatim>\<open>if (m_LedgerMask == 0) break;\<close>.
\<close>

fun Deallocate_loop :: "u64 \<Rightarrow> nat list \<Rightarrow> CFencedRingBuffer \<Rightarrow> CFencedRingBuffer" where
  "Deallocate_loop CompletedFenceValue [] this = this"
| "Deallocate_loop CompletedFenceValue (i # is) this =
     (let this' = Deallocate_entry CompletedFenceValue i this
      in if m_LedgerMask this' = 0 then this'
         else Deallocate_loop CompletedFenceValue is this')"

definition Deallocate :: "u64 \<Rightarrow> CFencedRingBuffer \<Rightarrow> CFencedRingBuffer" where
  "Deallocate CompletedFenceValue this =
     Deallocate_loop CompletedFenceValue [0..<cLedgerSize] this"

subsection \<open>Call sequences and the quantities the ring buffer is specified with\<close>

text \<open>
  A call of the public interface, and the buffer after a sequence of calls. The offsets
  and result codes of the calls are dropped here; \<open>None\<close> is the undefined remainder by
  a zero size.
\<close>

datatype ring_call = Allocate_call u32 u64 | Deallocate_call u64

fun ring_step :: "ring_call \<Rightarrow> CFencedRingBuffer \<Rightarrow> CFencedRingBuffer option" where
  "ring_step (Allocate_call NumItems CurrentFenceValue) this =
     map_option (\<lambda>(hr, off, this'). this') (Allocate NumItems CurrentFenceValue 0 this)"
| "ring_step (Deallocate_call CompletedFenceValue) this =
     Some (Deallocate CompletedFenceValue this)"

fun ring_run :: "ring_call list \<Rightarrow> CFencedRingBuffer \<Rightarrow> CFencedRingBuffer option" where
  "ring_run [] this = Some this"
| "ring_run (c # cs) this =
     (case ring_step c this of None \<Rightarrow> None | Some this' \<Rightarrow> ring_run cs this')"

text \<open>
  The precondition \<^verbatim>\<open>assert(NumItems < m_Size / 2)\<close> of every \<^verbatim>\<open>Allocate\<close> of a
  sequence, and the further condition that the fence value of every \<^verbatim>\<open>Allocate\<close> is
  not 0, the value the ledger entries are initialised and reset to.
\<close>

fun allocate_small :: "u32 \<Rightarrow> ring_call \<Rightarrow> bool" where
  "allocate_small Size (Allocate_call NumItems CurrentFenceValue) = (NumItems < Size div 2)"
| "allocate_small Size (Deallocate_call CompletedFenceValue) = True"

fun allocate_fenced :: "ring_call \<Rightarrow> bool" where
  "allocate_fenced (Allocate_call NumItems CurrentFenceValue) = (CurrentFenceValue \<noteq> 0)"
| "allocate_fenced (Deallocate_call CompletedFenceValue) = True"

text \<open>
  \<^verbatim>\<open>m_Head\<close> is initialised to \<^verbatim>\<open>Size\<close> and \<^verbatim>\<open>Allocate\<close> tests
  \<^verbatim>\<open>m_Tail + NumItems <= m_Head\<close>: the member is the logical head plus the size. The
  occupancy \<open>tail - head\<close> and the sum of \<^verbatim>\<open>m_NumAllocations\<close> over the ledger slots
  whose bit is set in \<^verbatim>\<open>m_LedgerMask\<close> are read as unbounded numbers.
\<close>

definition logical_head :: "CFencedRingBuffer \<Rightarrow> int" where
  "logical_head this = uint (m_Head this) - uint (m_Size this)"

definition occupancy :: "CFencedRingBuffer \<Rightarrow> int" where
  "occupancy this = uint (m_Tail this) - logical_head this"

definition live_sum :: "CFencedRingBuffer \<Rightarrow> nat" where
  "live_sum this =
     sum_list (map (\<lambda>i. if bit (m_LedgerMask this) i
                         then unat (m_NumAllocations (m_Ledger this ! i)) else 0)
                   [0..<cLedgerSize])"

definition ring_claim :: "CFencedRingBuffer \<Rightarrow> bool" where
  "ring_claim this =
     (0 \<le> occupancy this \<and> occupancy this \<le> uint (m_Size this)
      \<and> int (live_sum this) = occupancy this)"

text \<open>
  What every buffer constructed with a positive size keeps: the size, the length of the
  ledger array and an index into it.
\<close>

definition ring_wf :: "CFencedRingBuffer \<Rightarrow> bool" where
  "ring_wf this =
     (m_Size this \<noteq> 0 \<and> length (m_Ledger this) = cLedgerSize
      \<and> unat (m_LedgerIndex this) < cLedgerSize)"

text \<open>
  The ledger is saturated for a fence value: the fence value is newer than the current
  ledger entry's and the next ledger slot, \<open>(index + 1) mod 16\<close>, is still marked in use.
\<close>

definition ledger_saturated :: "u64 \<Rightarrow> CFencedRingBuffer \<Rightarrow> bool" where
  "ledger_saturated CurrentFenceValue this =
     (CurrentFenceValue > m_FenceValue (GetCurrentLedgeEntry this)
      \<and> \<not> IsLedgerEntryAvailable this ((m_LedgerIndex this + 1) mod of_nat cLedgerSize))"

text \<open>
  A request wraps when it would straddle the end of the buffer; the padding is then what
  is left up to the end. The tail after any wrap padding, and the test that no contiguous
  range of \<open>NumItems\<close> slots exists there, as unbounded numbers.
\<close>

definition request_wraps :: "u32 \<Rightarrow> CFencedRingBuffer \<Rightarrow> bool" where
  "request_wraps NumItems this =
     (unat (m_Tail this) mod unat (m_Size this) + unat NumItems > unat (m_Size this))"

definition wrap_padding :: "CFencedRingBuffer \<Rightarrow> nat" where
  "wrap_padding this = unat (m_Size this) - unat (m_Tail this) mod unat (m_Size this)"

definition padded_tail :: "u32 \<Rightarrow> CFencedRingBuffer \<Rightarrow> nat" where
  "padded_tail NumItems this =
     (if request_wraps NumItems this then unat (m_Tail this) + wrap_padding this
      else unat (m_Tail this))"

definition no_contiguous_range :: "u32 \<Rightarrow> CFencedRingBuffer \<Rightarrow> bool" where
  "no_contiguous_range NumItems this =
     (padded_tail NumItems this + unat NumItems > unat (m_Head this))"

text \<open>
  The invariant of the reachable buffers: well-formedness, the bounds of the occupancy,
  the ledger sum, and that a ledger slot whose bit is clear has the fence value 0.
\<close>

definition ring_inv :: "CFencedRingBuffer \<Rightarrow> bool" where
  "ring_inv this =
     (ring_wf this
      \<and> unat (m_Tail this) \<le> unat (m_Head this)
      \<and> unat (m_Head this) \<le> unat (m_Tail this) + unat (m_Size this)
      \<and> live_sum this + unat (m_Head this) = unat (m_Tail this) + unat (m_Size this)
      \<and> (\<forall>i < cLedgerSize. \<not> bit (m_LedgerMask this) i \<longrightarrow>
            m_FenceValue (m_Ledger this ! i) = 0))"

text \<open>
  Two abbreviations for the proofs: the index \<^verbatim>\<open>MoveToNextLedgerEntry\<close> moves to, and
  the buffer after the successful branch of the last step of \<^verbatim>\<open>Allocate\<close>.
\<close>

definition next_index :: "CFencedRingBuffer \<Rightarrow> u32" where
  "next_index s = (m_LedgerIndex s + 1) mod of_nat cLedgerSize"

definition commit :: "u32 \<Rightarrow> CFencedRingBuffer \<Rightarrow> CFencedRingBuffer" where
  "commit N s =
     s\<lparr>m_Ledger := (m_Ledger s)[unat (m_LedgerIndex s) :=
          (GetCurrentLedgeEntry s)\<lparr>m_NumAllocations := m_NumAllocations (GetCurrentLedgeEntry s) + N\<rparr>],
       m_Tail := m_Tail s + ucast N\<rparr>"

text \<open>
  Fifteen one-slot allocations with the fence values 1 to 15: together with the initial
  entry they occupy all sixteen ledger slots.
\<close>

definition saturating_calls :: "ring_call list" where
  "saturating_calls =
     [Allocate_call 1 1, Allocate_call 1 2, Allocate_call 1 3, Allocate_call 1 4,
      Allocate_call 1 5, Allocate_call 1 6, Allocate_call 1 7, Allocate_call 1 8,
      Allocate_call 1 9, Allocate_call 1 10, Allocate_call 1 11, Allocate_call 1 12,
      Allocate_call 1 13, Allocate_call 1 14, Allocate_call 1 15]"

section \<open>CDescriptorHeapManager\<close>

text \<open>
  \<^verbatim>\<open>struct SFreeRange { HeapOffsetRaw Start; HeapOffsetRaw End; };\<close> where
  \<^verbatim>\<open>HeapOffsetRaw\<close> is the type of \<^verbatim>\<open>D3D12_CPU_DESCRIPTOR_HANDLE::ptr\<close>, a 64-bit
  \<^verbatim>\<open>SIZE_T\<close>. A \<^verbatim>\<open>HeapOffset\<close> is modelled by its \<^verbatim>\<open>ptr\<close>.
\<close>

record SFreeRange =
  Start :: u64
  End :: u64

text \<open>
  \<^verbatim>\<open>struct SHeapEntry { unique_comptr<ID3D12DescriptorHeap> m_Heap;
  std::list<SFreeRange> m_FreeList; };\<close> The heap object is represented by what the
  manager reads from it: its \<^verbatim>\<open>GetCPUDescriptorHandleForHeapStart().ptr\<close>.
\<close>

record SHeapEntry =
  m_Heap :: u64
  m_FreeList :: "SFreeRange list"

text \<open>
  The members of \<^verbatim>\<open>class CDescriptorHeapManager\<close> that the operations use:
  \<^verbatim>\<open>m_Desc.NumDescriptors\<close>, \<^verbatim>\<open>m_DescriptorSize\<close> (both \<^verbatim>\<open>UINT\<close>), the deque
  \<^verbatim>\<open>m_Heaps\<close> and the list \<^verbatim>\<open>m_FreeHeaps\<close> of \<^verbatim>\<open>HeapIndex\<close>. A heap index is a
  position in \<^verbatim>\<open>m_Heaps\<close>, a natural number. The lock \<^verbatim>\<open>m_CritSect\<close> is not
  modelled.
\<close>

type_synonym HeapIndex = nat

record CDescriptorHeapManager =
  NumDescriptors :: u32
  m_DescriptorSize :: u32
  m_Heaps :: "SHeapEntry list"
  m_FreeHeaps :: "HeapIndex list"

text \<open>
  The constructor: the descriptor size is what the device reports for the heap type.
\<close>

definition new_CDescriptorHeapManager :: "u32 \<Rightarrow> u32 \<Rightarrow> CDescriptorHeapManager" where
  "new_CDescriptorHeapManager NumDescriptorsPerHeap DescriptorHandleIncrementSize =
     \<lparr>NumDescriptors = NumDescriptorsPerHeap,
      m_DescriptorSize = DescriptorHandleIncrementSize,
      m_Heaps = [], m_FreeHeaps = []\<rparr>"

text \<open>
  The environment of a call. \<open>dev\<close> is the answer of the device to
  \<^verbatim>\<open>CreateDescriptorHeap\<close>: \<open>None\<close> when it fails (\<^verbatim>\<open>ThrowFailure\<close> throws
  \<^verbatim>\<open>_com_error\<close>), else the CPU start address of the new heap. \<open>oom\<close> says which of
  the container insertions of the call that the source marks \<^verbatim>\<open>// throw( bad_alloc )\<close>
  fails, counted from 0 in the order the call reaches them; \<open>None\<close> when none fails.

  \<^verbatim>\<open>void AllocateHeap() noexcept(false)\<close>: the result is the exception thrown, if any,
  and the manager at that point. The last insertion, into \<^verbatim>\<open>m_FreeHeaps\<close>, comes after
  the new entry is in \<^verbatim>\<open>m_Heaps\<close>. The product
  \<^verbatim>\<open>m_Desc.NumDescriptors * m_DescriptorSize\<close> is a 32-bit product.
\<close>

definition AllocateHeap ::
  "u64 option \<Rightarrow> nat option \<Rightarrow> CDescriptorHeapManager \<Rightarrow> failure option \<times> CDescriptorHeapManager" where
  "AllocateHeap dev oom this =
     (case dev of
        None \<Rightarrow> (Some com_error, this)
      | Some HeapBase \<Rightarrow>
          if oom = Some 0 then (Some bad_alloc, this)
          else
            let NewEntry = \<lparr>m_Heap = HeapBase,
                  m_FreeList = [\<lparr>Start = HeapBase,
                                 End = HeapBase + ucast (NumDescriptors this * m_DescriptorSize this)\<rparr>]\<rparr>
            in if oom = Some 1 then (Some bad_alloc, this)
               else
                 let this1 = this\<lparr>m_Heaps := m_Heaps this @ [NewEntry]\<rparr>
                 in if oom = Some 2 then (Some bad_alloc, this1)
                    else (None, this1\<lparr>m_FreeHeaps :=
                                         m_FreeHeaps this1 @ [length (m_Heaps this1) - 1]\<rparr>))"

text \<open>
  \<^verbatim>\<open>HeapOffset AllocateHeapSlot(HeapIndex *outIndex = nullptr) noexcept(false)\<close>: the part
  after a heap is known to be available. \<^verbatim>\<open>m_FreeHeaps.front()\<close> of an empty list,
  \<^verbatim>\<open>m_Heaps[index]\<close> out of range and \<^verbatim>\<open>*m_FreeList.begin()\<close> of an empty list are
  undefined (the \<^verbatim>\<open>assert\<close>s in front of them are debug-only). The index is always
  returned beside the handle.
\<close>

definition TakeHeapSlot ::
  "CDescriptorHeapManager \<Rightarrow> (failure + u64 \<times> HeapIndex) \<times> CDescriptorHeapManager" where
  "TakeHeapSlot this =
     (case m_FreeHeaps this of
        [] \<Rightarrow> (Inl undefined_behavior, this)
      | index # otherFreeHeaps \<Rightarrow>
          if \<not> index < length (m_Heaps this) then (Inl undefined_behavior, this)
          else
            (case m_FreeList (m_Heaps this ! index) of
               [] \<Rightarrow> (Inl undefined_behavior, this)
             | FreeRange # rest \<Rightarrow>
                 let Ret = Start FreeRange;
                     FreeRange' = FreeRange\<lparr>Start := Start FreeRange + ucast (m_DescriptorSize this)\<rparr>
                 in if Start FreeRange' = End FreeRange'
                    then (Inr (Ret, index),
                          this\<lparr>m_Heaps := (m_Heaps this)[index :=
                                   (m_Heaps this ! index)\<lparr>m_FreeList := rest\<rparr>],
                                m_FreeHeaps := (if rest = [] then otherFreeHeaps
                                                else m_FreeHeaps this)\<rparr>)
                    else (Inr (Ret, index),
                          this\<lparr>m_Heaps := (m_Heaps this)[index :=
                                   (m_Heaps this ! index)\<lparr>m_FreeList := FreeRange' # rest\<rparr>]\<rparr>)))"

definition AllocateHeapSlot ::
  "u64 option \<Rightarrow> nat option \<Rightarrow> CDescriptorHeapManager
     \<Rightarrow> (failure + u64 \<times> HeapIndex) \<times> CDescriptorHeapManager" where
  "AllocateHeapSlot dev oom this =
     (if m_FreeHeaps this = [] then
        (case AllocateHeap dev oom this of
           (Some e, this1) \<Rightarrow> (Inl e, this1)
         | (None, this1) \<Rightarrow> TakeHeapSlot this1)
      else TakeHeapSlot this)"

text \<open>
  The loop of \<^verbatim>\<open>FreeHeapSlot\<close> over the free list,
  \<^verbatim>\<open>for (it = begin; it != end && !bFound; ++it)\<close>: the list after the loop when a
  range was found (extended to the left, extended to the right, or the new range inserted
  in front of it), or that the end was reached, or that the insertion threw.
\<close>

datatype walk = Found "SFreeRange list" | NotFound | Threw

fun FreeList_walk :: "u64 \<Rightarrow> u32 \<Rightarrow> nat option \<Rightarrow> SFreeRange list \<Rightarrow> walk" where
  "FreeList_walk Offset DescriptorSize oom [] = NotFound"
| "FreeList_walk Offset DescriptorSize oom (FreeRange # rest) =
     (if Start FreeRange = Offset + ucast DescriptorSize
      then Found (FreeRange\<lparr>Start := Offset\<rparr> # rest)
      else if End FreeRange = Offset
      then Found (FreeRange\<lparr>End := End FreeRange + ucast DescriptorSize\<rparr> # rest)
      else if Start FreeRange > Offset
      then (if oom = Some 0 then Threw
            else Found (\<lparr>Start = Offset, End = Offset + ucast DescriptorSize\<rparr> # FreeRange # rest))
      else (case FreeList_walk Offset DescriptorSize oom rest of
              Found rest' \<Rightarrow> Found (FreeRange # rest')
            | NotFound \<Rightarrow> NotFound
            | Threw \<Rightarrow> Threw))"

text \<open>
  \<^verbatim>\<open>void FreeHeapSlot(HeapOffset Offset, HeapIndex index) noexcept\<close>. A
  \<^verbatim>\<open>bad_alloc\<close> is caught and leaves what was done before it: in particular the index
  pushed to \<^verbatim>\<open>m_FreeHeaps\<close> when the following \<^verbatim>\<open>m_FreeList.push_back\<close> throws.
  \<^verbatim>\<open>m_Heaps[index]\<close> out of range is undefined, the result \<open>None\<close>.
\<close>

definition FreeHeapSlot ::
  "u64 \<Rightarrow> HeapIndex \<Rightarrow> nat option \<Rightarrow> CDescriptorHeapManager \<Rightarrow> CDescriptorHeapManager option" where
  "FreeHeapSlot Offset index oom this =
     (if \<not> index < length (m_Heaps this) then None
      else
        let HeapEntry = m_Heaps this ! index;
            NewRange = \<lparr>Start = Offset, End = Offset + ucast (m_DescriptorSize this)\<rparr>
        in (case FreeList_walk Offset (m_DescriptorSize this) oom (m_FreeList HeapEntry) of
              Found FreeList' \<Rightarrow>
                Some (this\<lparr>m_Heaps := (m_Heaps this)[index := HeapEntry\<lparr>m_FreeList := FreeList'\<rparr>]\<rparr>)
            | Threw \<Rightarrow> Some this
            | NotFound \<Rightarrow>
                if m_FreeList HeapEntry = [] then
                  (if oom = Some 0 then Some this
                   else
                     let this1 = this\<lparr>m_FreeHeaps := m_FreeHeaps this @ [index]\<rparr>
                     in if oom = Some 1 then Some this1
                        else Some (this1\<lparr>m_Heaps := (m_Heaps this1)[index :=
                                      HeapEntry\<lparr>m_FreeList := [NewRange]\<rparr>]\<rparr>))
                else
                  (if oom = Some 0 then Some this
                   else Some (this\<lparr>m_Heaps := (m_Heaps this)[index :=
                                 HeapEntry\<lparr>m_FreeList := m_FreeList HeapEntry @ [NewRange]\<rparr>]\<rparr>))))"

subsection \<open>Call sequences and the properties of a free list\<close>

text \<open>
  A call of the public interface with its environment. A run keeps, beside the manager,
  the handles that were allocated and not yet freed, each with the index of its page; it
  is \<open>None\<close> when a call frees a handle that is not among them, or when a call is
  undefined. A handle whose \<^verbatim>\<open>FreeHeapSlot\<close> ran out of memory is no longer
  outstanding: the slot is lost.
\<close>

datatype heap_call =
    AllocateHeapSlot_call "u64 option" "nat option"
  | FreeHeapSlot_call u64 HeapIndex "nat option"

type_synonym heap_state = "CDescriptorHeapManager \<times> (u64 \<times> HeapIndex) list"

fun heap_step :: "heap_call \<Rightarrow> heap_state \<Rightarrow> heap_state option" where
  "heap_step (AllocateHeapSlot_call dev oom) (this, outstanding) =
     (case AllocateHeapSlot dev oom this of
        (Inl undefined_behavior, this') \<Rightarrow> None
      | (Inl e, this') \<Rightarrow> Some (this', outstanding)
      | (Inr handle, this') \<Rightarrow> Some (this', handle # outstanding))"
| "heap_step (FreeHeapSlot_call Offset index oom) (this, outstanding) =
     (if (Offset, index) \<in> set outstanding
      then map_option (\<lambda>this'. (this', removeAll (Offset, index) outstanding))
             (FreeHeapSlot Offset index oom this)
      else None)"

fun heap_run :: "heap_call list \<Rightarrow> heap_state \<Rightarrow> heap_state option" where
  "heap_run [] st = Some st"
| "heap_run (c # cs) st =
     (case heap_step c st of None \<Rightarrow> None | Some st' \<Rightarrow> heap_run cs st')"

text \<open>
  What the device is trusted with: a page of \<open>NumDescriptors\<close> descriptors of
  \<open>DescriptorSize\<close> bytes has a size that fits the 32-bit product, and a heap the
  device creates lies in the 64-bit address space.
\<close>

definition heap_config_ok :: "u32 \<Rightarrow> u32 \<Rightarrow> bool" where
  "heap_config_ok NumDescriptorsPerHeap DescriptorSize =
     (0 < unat DescriptorSize \<and> 0 < unat NumDescriptorsPerHeap
      \<and> unat NumDescriptorsPerHeap * unat DescriptorSize < 2 ^ 32)"

fun heap_call_ok :: "u32 \<Rightarrow> u32 \<Rightarrow> heap_call \<Rightarrow> bool" where
  "heap_call_ok NumDescriptorsPerHeap DescriptorSize (AllocateHeapSlot_call dev oom) =
     (case dev of
        None \<Rightarrow> True
      | Some HeapBase \<Rightarrow>
          unat HeapBase + unat NumDescriptorsPerHeap * unat DescriptorSize < 2 ^ 64)"
| "heap_call_ok NumDescriptorsPerHeap DescriptorSize (FreeHeapSlot_call Offset index oom) = True"

text \<open>
  The three properties of a free list: sorted by ascending \<open>Start\<close>; pairwise
  non-overlapping (every range ends at or before the start of every later one); and no
  two adjacent ranges touch.
\<close>

definition sorted_by_Start :: "SFreeRange list \<Rightarrow> bool" where
  "sorted_by_Start FreeList = sorted_wrt (\<lambda>r r'. Start r < Start r') FreeList"

definition non_overlapping :: "SFreeRange list \<Rightarrow> bool" where
  "non_overlapping FreeList = sorted_wrt (\<lambda>r r'. End r \<le> Start r') FreeList"

definition no_adjacent_touch :: "SFreeRange list \<Rightarrow> bool" where
  "no_adjacent_touch FreeList =
     list_all (\<lambda>(r, r'). End r \<noteq> Start r') (zip FreeList (tl FreeList))"

subsection \<open>The invariant of the pages\<close>

text \<open>
  The invariant of a page whose heap starts at \<open>b\<close> and ends at \<open>lim\<close>, with descriptors
  of \<open>d\<close> bytes, as unbounded numbers: the free ranges are non-empty, lie between a lower
  bound \<open>lo\<close> and \<open>lim\<close> in ascending order without overlap, and begin and end on
  descriptor boundaries.
\<close>

fun ranges_from :: "nat \<Rightarrow> nat \<Rightarrow> nat \<Rightarrow> nat \<Rightarrow> SFreeRange list \<Rightarrow> bool" where
  "ranges_from lo lim b d [] = True"
| "ranges_from lo lim b d (r # rs) =
     (lo \<le> unat (Start r) \<and> unat (Start r) < unat (End r) \<and> unat (End r) \<le> lim
      \<and> d dvd (unat (Start r) - b) \<and> d dvd (unat (End r) - b)
      \<and> ranges_from (unat (End r)) lim b d rs)"

text \<open>
  An address lies in a free range of the list; and the invariant of a page with the
  handles outstanding on it: each handle is a descriptor boundary of the page that lies in
  no free range.
\<close>

definition in_ranges :: "nat \<Rightarrow> SFreeRange list \<Rightarrow> bool" where
  "in_ranges x rs = (\<exists>r \<in> set rs. unat (Start r) \<le> x \<and> x < unat (End r))"

definition page_inv :: "nat \<Rightarrow> nat \<Rightarrow> u64 set \<Rightarrow> SHeapEntry \<Rightarrow> bool" where
  "page_inv d sz handles page =
     (let b = unat (m_Heap page); lim = b + sz
      in lim < 2 ^ 64
         \<and> ranges_from b lim b d (m_FreeList page)
         \<and> (\<forall>h \<in> handles. b \<le> unat h \<and> unat h < lim \<and> d dvd (unat h - b)
                            \<and> \<not> in_ranges (unat h) (m_FreeList page)))"

text \<open>
  The manager with its outstanding handles: every page satisfies the page invariant with
  the handles outstanding on it, and the indices in \<^verbatim>\<open>m_FreeHeaps\<close> and of the
  outstanding handles are indices of pages.
\<close>

definition heap_inv :: "u32 \<Rightarrow> u32 \<Rightarrow> heap_state \<Rightarrow> bool" where
  "heap_inv N DS st =
     (case st of (this, outstanding) \<Rightarrow>
        NumDescriptors this = N \<and> m_DescriptorSize this = DS
        \<and> (\<forall>i < length (m_Heaps this).
              page_inv (unat DS) (unat N * unat DS) {h. (h, i) \<in> set outstanding} (m_Heaps this ! i))
        \<and> (\<forall>i \<in> set (m_FreeHeaps this). i < length (m_Heaps this))
        \<and> (\<forall>(h, i) \<in> set outstanding. i < length (m_Heaps this)))"

text \<open>
  Two call sequences on small pages of 32-byte descriptors. The first allocates the four
  slots A, B, C, D of a page at address 0x1000 and frees A, then C, then B. The second
  fills two pages of one slot each and frees both slots.
\<close>

definition fragmenting_calls :: "heap_call list" where
  "fragmenting_calls =
     [AllocateHeapSlot_call (Some 0x1000) None, AllocateHeapSlot_call None None,
      AllocateHeapSlot_call None None, AllocateHeapSlot_call None None,
      FreeHeapSlot_call 0x1000 0 None, FreeHeapSlot_call 0x1040 0 None,
      FreeHeapSlot_call 0x1020 0 None]"

definition two_page_calls :: "heap_call list" where
  "two_page_calls =
     [AllocateHeapSlot_call (Some 0x1000) None, AllocateHeapSlot_call (Some 0x2000) None,
      FreeHeapSlot_call 0x1000 0 None, FreeHeapSlot_call 0x2000 1 None]"

subsection \<open>Sequences that free only outstanding handles\<close>

text \<open>
  A call frees only an outstanding handle; a sequence does so at every call of its run.
\<close>

fun free_outstanding :: "heap_call \<Rightarrow> heap_state \<Rightarrow> bool" where
  "free_outstanding (AllocateHeapSlot_call dev oom) st = True"
| "free_outstanding (FreeHeapSlot_call Offset index oom) (this, outstanding) =
     ((Offset, index) \<in> set outstanding)"

fun frees_outstanding :: "heap_call list \<Rightarrow> heap_state \<Rightarrow> bool" where
  "frees_outstanding [] st = True"
| "frees_outstanding (c # cs) st =
     (free_outstanding c st
      \<and> (case heap_step c st of None \<Rightarrow> True | Some st' \<Rightarrow> frees_outstanding cs st'))"

text \<open>
  The one insertion whose failure leaves the manager inconsistent: the second insertion
  of a \<open>FreeHeapSlot\<close>, into the empty free list of a page whose index was just pushed
  to \<^verbatim>\<open>m_FreeHeaps\<close>.
\<close>

fun second_insertion_fails :: "heap_call \<Rightarrow> bool" where
  "second_insertion_fails (AllocateHeapSlot_call dev oom) = False"
| "second_insertion_fails (FreeHeapSlot_call Offset index oom) = (oom = Some 1)"

definition free_heaps_inv :: "CDescriptorHeapManager \<Rightarrow> bool" where
  "free_heaps_inv this =
     (distinct (m_FreeHeaps this)
      \<and> (\<forall>i \<in> set (m_FreeHeaps this). m_FreeList (m_Heaps this ! i) \<noteq> []))"

section \<open>Retired objects and the deferred deletion queue\<close>

text \<open>
  \<^verbatim>\<open>struct RetiredObject\<close>. \<^verbatim>\<open>m_lastCommandListIDs\<close> is an array indexed by
  \<^verbatim>\<open>(UINT)COMMAND_LIST_TYPE\<close>, a list here; a command list type is its index. The enum
  \<^verbatim>\<open>COMMAND_LIST_TYPE\<close> is declared outside the given sources, so its bound
  \<^verbatim>\<open>MAX_VALID\<close> is a parameter of the constructors. The type \<open>'dw\<close> is
  \<^verbatim>\<open>DeferredWait\<close>.
\<close>

type_synonym COMMAND_LIST_TYPE = nat

record 'dw RetiredObject =
  m_lastCommandListIDs :: "u64 list"
  m_completionRequired :: bool
  m_deferredWaits :: "'dw list"

text \<open>
  \<^verbatim>\<open>RetiredObject(COMMAND_LIST_TYPE CommandListType, UINT64 lastCommandListID,
  bool completionRequired, std::vector<DeferredWait> deferredWaits)\<close>: the array is
  zero-initialised (\<^verbatim>\<open>= {}\<close>) and one element is stored.
\<close>

definition RetiredObject_of_type ::
  "nat \<Rightarrow> COMMAND_LIST_TYPE \<Rightarrow> u64 \<Rightarrow> bool \<Rightarrow> 'dw list \<Rightarrow> 'dw RetiredObject" where
  "RetiredObject_of_type MAX_VALID CommandListType lastCommandListID completionRequired deferredWaits =
     \<lparr>m_lastCommandListIDs = (replicate MAX_VALID 0)[CommandListType := lastCommandListID],
      m_completionRequired = completionRequired,
      m_deferredWaits = deferredWaits\<rparr>"

text \<open>
  \<^verbatim>\<open>RetiredObject(const UINT64 lastCommandListIDs[MAX_VALID], bool completionRequired,
  std::vector<DeferredWait> deferredWaits)\<close>: the loop copies the elements
  \<open>0 .. MAX_VALID - 1\<close>.
\<close>

definition RetiredObject_of_array ::
  "nat \<Rightarrow> u64 list \<Rightarrow> bool \<Rightarrow> 'dw list \<Rightarrow> 'dw RetiredObject" where
  "RetiredObject_of_array MAX_VALID lastCommandListIDs completionRequired deferredWaits =
     \<lparr>m_lastCommandListIDs = map (\<lambda>i. lastCommandListIDs ! i) [0..<MAX_VALID],
      m_completionRequired = completionRequired,
      m_deferredWaits = deferredWaits\<rparr>"

text \<open>
  \<^verbatim>\<open>struct RetiredSuballocationBlock : public RetiredObject\<close>, with the suballocated
  block \<open>'b\<close> and a reference to its parent allocator (a name \<open>'al\<close> of the allocator).
  Both constructors pass \<^verbatim>\<open>true\<close> for \<^verbatim>\<open>completionRequired\<close> and take the default, empty
  vector of deferred waits.
\<close>

record ('dw, 'b, 'al) RetiredSuballocationBlock = "'dw RetiredObject" +
  m_SuballocatedBlock :: 'b
  m_ParentAllocator :: 'al

definition RetiredSuballocationBlock_of_type ::
  "nat \<Rightarrow> 'b \<Rightarrow> 'al \<Rightarrow> COMMAND_LIST_TYPE \<Rightarrow> u64 \<Rightarrow> ('dw, 'b, 'al) RetiredSuballocationBlock" where
  "RetiredSuballocationBlock_of_type MAX_VALID block parentAllocator CommandListType lastCommandListID =
     RetiredObject.extend (RetiredObject_of_type MAX_VALID CommandListType lastCommandListID True [])
       (RetiredSuballocationBlock.fields block parentAllocator)"

definition RetiredSuballocationBlock_of_array ::
  "nat \<Rightarrow> 'b \<Rightarrow> 'al \<Rightarrow> u64 list \<Rightarrow> ('dw, 'b, 'al) RetiredSuballocationBlock" where
  "RetiredSuballocationBlock_of_array MAX_VALID block parentAllocator lastCommandListIDs =
     RetiredObject.extend (RetiredObject_of_array MAX_VALID lastCommandListIDs True [])
       (RetiredSuballocationBlock.fields block parentAllocator)"

text \<open>
  The static \<^verbatim>\<open>RetiredObject::ReadyToDestroy(pContext, completionRequired,
  lastCommandListIDs, deferredWaits)\<close> is only declared in the header; the member function
  forwards the object's fields to it. It is a parameter \<open>ready\<close> here, and \<open>'ctx\<close> is the
  state of the \<^verbatim>\<open>ImmediateContext\<close> it reads.
\<close>

type_synonym ('ctx, 'dw) PFNReadyToDestroy = "'ctx \<Rightarrow> bool \<Rightarrow> u64 list \<Rightarrow> 'dw list \<Rightarrow> bool"

definition ReadyToDestroy ::
  "('ctx, 'dw) PFNReadyToDestroy \<Rightarrow> 'ctx \<Rightarrow> ('dw, 'x) RetiredObject_scheme \<Rightarrow> bool" where
  "ReadyToDestroy ready pContext this =
     ready pContext (m_completionRequired this) (m_lastCommandListIDs this) (m_deferredWaits this)"

text \<open>
  \<^verbatim>\<open>void Destroy() { m_ParentAllocator.Deallocate(m_SuballocatedBlock); }\<close>. The
  allocators live outside the queue, in the world \<open>'w\<close>; \<^verbatim>\<open>ConditionalAllocator::Deallocate\<close>
  is not part of the given sources and is the parameter \<open>deallocate\<close>.
\<close>

definition Destroy ::
  "('al \<Rightarrow> 'b \<Rightarrow> 'w \<Rightarrow> 'w) \<Rightarrow> ('dw, 'b, 'al, 'x) RetiredSuballocationBlock_scheme \<Rightarrow> 'w \<Rightarrow> 'w" where
  "Destroy deallocate this w = deallocate (m_ParentAllocator this) (m_SuballocatedBlock this) w"

text \<open>
  \<^verbatim>\<open>class DeferredDeletionQueueManager\<close>: the two \<^verbatim>\<open>std::queue\<close>s are lists, pushed at
  the back and popped at the front. \<open>'o\<close> is \<^verbatim>\<open>RetiredD3D12Object\<close>.
\<close>

record ('o, 'dw, 'b, 'al) DeferredDeletionQueueManager =
  m_DeferredObjectDeletionQueue :: "'o list"
  m_DeferredSuballocationDeletionQueue :: "('dw, 'b, 'al) RetiredSuballocationBlock list"

text \<open>
  \<^verbatim>\<open>void AddSuballocationToQueue(HeapSuballocationBlock &suballocation,
  ConditionalHeapAllocator &parentAllocator, COMMAND_LIST_TYPE CommandListType,
  UINT64 lastCommandListID)\<close>; \<open>pParent\<close> is the context \<^verbatim>\<open>m_pParent\<close> points to.
\<close>

definition AddSuballocationToQueue ::
  "('ctx, 'dw) PFNReadyToDestroy \<Rightarrow> ('al \<Rightarrow> 'b \<Rightarrow> 'w \<Rightarrow> 'w) \<Rightarrow> nat \<Rightarrow> 'ctx
     \<Rightarrow> 'b \<Rightarrow> 'al \<Rightarrow> COMMAND_LIST_TYPE \<Rightarrow> u64
     \<Rightarrow> ('o, 'dw, 'b, 'al) DeferredDeletionQueueManager \<Rightarrow> 'w
     \<Rightarrow> ('o, 'dw, 'b, 'al) DeferredDeletionQueueManager \<times> 'w" where
  "AddSuballocationToQueue ready deallocate MAX_VALID pParent suballocation parentAllocator
       CommandListType lastCommandListID this w =
     (let retiredSuballocation =
            RetiredSuballocationBlock_of_type MAX_VALID suballocation parentAllocator
              CommandListType lastCommandListID
      in if \<not> ReadyToDestroy ready pParent retiredSuballocation
         then (this\<lparr>m_DeferredSuballocationDeletionQueue :=
                       m_DeferredSuballocationDeletionQueue this @ [retiredSuballocation]\<rparr>, w)
         else (this, Destroy deallocate retiredSuballocation w))"

text \<open>
  The overload taking \<^verbatim>\<open>const UINT64 lastCommandListIDs[MAX_VALID]\<close>.
\<close>

definition AddSuballocationToQueue_array ::
  "('ctx, 'dw) PFNReadyToDestroy \<Rightarrow> ('al \<Rightarrow> 'b \<Rightarrow> 'w \<Rightarrow> 'w) \<Rightarrow> nat \<Rightarrow> 'ctx
     \<Rightarrow> 'b \<Rightarrow> 'al \<Rightarrow> u64 list
     \<Rightarrow> ('o, 'dw, 'b, 'al) DeferredDeletionQueueManager \<Rightarrow> 'w
     \<Rightarrow> ('o, 'dw, 'b, 'al) DeferredDeletionQueueManager \<times> 'w" where
  "AddSuballocationToQueue_array ready deallocate MAX_VALID pParent suballocation parentAllocator
       lastCommandListIDs this w =
     (let retiredSuballocation =
            RetiredSuballocationBlock_of_array MAX_VALID suballocation parentAllocator
              lastCommandListIDs
      in if \<not> ReadyToDestroy ready pParent retiredSuballocation
         then (this\<lparr>m_DeferredSuballocationDeletionQueue :=
                       m_DeferredSuballocationDeletionQueue this @ [retiredSuballocation]\<rparr>, w)
         else (this, Destroy deallocate retiredSuballocation w))"

text \<open>
  Modelled from the spec: the static \<^verbatim>\<open>RetiredObject::ReadyToDestroy\<close> and
  \<^verbatim>\<open>RetiredObject::DeferredWaitsSatisfied\<close>, which the header declares and no given
  source file defines, and the part of \<^verbatim>\<open>ImmediateContext\<close> they read. The spec:
  for each command-list type \<open>t\<close> with \<open>L[t] > 0\<close> the completed fence of \<open>t\<close> must be
  \<open>\<ge> L[t]\<close>; if \<open>completionRequired\<close> is false and the device is being torn down, the
  check for \<open>t\<close> is waived; all deferred waits must be satisfied, each a fence and value
  pair that is satisfied when the external fence's completed value is \<open>\<ge>\<close> its threshold.
\<close>

record DeferredWait =
  wait_fence :: nat
  wait_value :: u64

record ImmediateContext_view =
  completedFenceValue :: "COMMAND_LIST_TYPE \<Rightarrow> u64"
  externalFenceCompleted :: "nat \<Rightarrow> u64"
  deviceBeingDestroyed :: bool

definition spec_DeferredWaitsSatisfied :: "ImmediateContext_view \<Rightarrow> DeferredWait list \<Rightarrow> bool" where
  "spec_DeferredWaitsSatisfied ctx deferredWaits =
     list_all (\<lambda>dw. wait_value dw \<le> externalFenceCompleted ctx (wait_fence dw)) deferredWaits"

definition spec_ReadyToDestroy :: "(ImmediateContext_view, DeferredWait) PFNReadyToDestroy" where
  "spec_ReadyToDestroy ctx completionRequired lastCommandListIDs deferredWaits =
     (list_all (\<lambda>t. 0 < lastCommandListIDs ! t \<longrightarrow>
                      (lastCommandListIDs ! t \<le> completedFenceValue ctx t
                       \<or> (\<not> completionRequired \<and> deviceBeingDestroyed ctx)))
               [0..<length lastCommandListIDs]
      \<and> spec_DeferredWaitsSatisfied ctx deferredWaits)"

section \<open>Properties of the fence pools\<close>

lemma RetrieveFromPool_create:
  "m_Pool this = [] \<or> CurrentFenceValue < fst (hd (m_Pool this)) \<Longrightarrow>
   RetrieveFromPool CurrentFenceValue pfnCreateNew args this w =
     (fst (pfnCreateNew args w), this, snd (pfnCreateNew args w))"
  by (auto simp: RetrieveFromPool_def split: list.splits prod.splits)

lemma RetrieveFromPool_head:
  "m_Pool this \<noteq> [] \<Longrightarrow> \<not> CurrentFenceValue < fst (hd (m_Pool this)) \<Longrightarrow>
   RetrieveFromPool CurrentFenceValue pfnCreateNew args this w =
     (Inr (snd (hd (m_Pool this))), this\<lparr>m_Pool := tl (m_Pool this)\<rparr>, w)"
  by (auto simp: RetrieveFromPool_def split: list.splits)

text \<open>
  C4. \<open>CFencePool::RetrieveFromPool(completed, createNew, args)\<close>: if the pool is empty, or
  the head entry's fence value is strictly greater than \<open>completed\<close>, the result (and the
  effect on the world) is that of \<open>createNew(args)\<close> and the pool is unchanged; otherwise
  the head entry is removed and its resource returned, without calling \<open>createNew\<close>.
  Consequently, on an empty pool after \<open>return(R1, 10); return(R2, 20)\<close>: retrieving with
  \<open>completed = 15\<close> returns \<open>R1\<close>, a second retrieval with \<open>completed = 15\<close> invokes
  \<open>createNew\<close>, and a retrieval with \<open>completed = 25\<close> returns \<open>R2\<close>.
\<close>

theorem C4_RetrieveFromPool:
  "(m_Pool this = [] \<or> CurrentFenceValue < fst (hd (m_Pool this)) \<longrightarrow>
      RetrieveFromPool CurrentFenceValue pfnCreateNew args this w =
        (fst (pfnCreateNew args w), this, snd (pfnCreateNew args w)))
   \<and> (m_Pool this \<noteq> [] \<and> \<not> CurrentFenceValue < fst (hd (m_Pool this)) \<longrightarrow>
      RetrieveFromPool CurrentFenceValue pfnCreateNew args this w =
        (Inr (snd (hd (m_Pool this))), this\<lparr>m_Pool := tl (m_Pool this)\<rparr>, w))
   \<and> (let p0 = \<lparr>m_Pool = []\<rparr>;
            p1 = fst (ReturnToPool True R1 10 p0);
            p2 = fst (ReturnToPool True R2 20 p1);
            (r1, p3, w1) = RetrieveFromPool 15 pfnCreateNew args p2 w;
            (r2, p4, w2) = RetrieveFromPool 15 pfnCreateNew args p3 w1;
            (r3, p5, w3) = RetrieveFromPool 25 pfnCreateNew args p4 w2
        in r1 = Inr R1 \<and> w1 = w \<and> m_Pool p3 = [(20, R2)]
           \<and> (r2, w2) = pfnCreateNew args w1 \<and> p4 = p3
           \<and> r3 = Inr R2 \<and> w3 = w2 \<and> m_Pool p5 = [])"
proof (intro conjI impI)
  assume "m_Pool this = [] \<or> CurrentFenceValue < fst (hd (m_Pool this))"
  then show "RetrieveFromPool CurrentFenceValue pfnCreateNew args this w =
        (fst (pfnCreateNew args w), this, snd (pfnCreateNew args w))"
    by (rule RetrieveFromPool_create)
next
  assume "m_Pool this \<noteq> [] \<and> \<not> CurrentFenceValue < fst (hd (m_Pool this))"
  then show "RetrieveFromPool CurrentFenceValue pfnCreateNew args this w =
        (Inr (snd (hd (m_Pool this))), this\<lparr>m_Pool := tl (m_Pool this)\<rparr>, w)"
    by (simp add: RetrieveFromPool_head)
next
  show "let p0 = \<lparr>m_Pool = []\<rparr>;
            p1 = fst (ReturnToPool True R1 10 p0);
            p2 = fst (ReturnToPool True R2 20 p1);
            (r1, p3, w1) = RetrieveFromPool 15 pfnCreateNew args p2 w;
            (r2, p4, w2) = RetrieveFromPool 15 pfnCreateNew args p3 w1;
            (r3, p5, w3) = RetrieveFromPool 25 pfnCreateNew args p4 w2
        in r1 = Inr R1 \<and> w1 = w \<and> m_Pool p3 = [(20, R2)]
           \<and> (r2, w2) = pfnCreateNew args w1 \<and> p4 = p3
           \<and> r3 = Inr R2 \<and> w3 = w2 \<and> m_Pool p5 = []"
    by (simp add: ReturnToPool_def emplace_back_def RetrieveFromPool_def Let_def
        split: prod.splits)
qed

theorem C4_RetrieveFromPool_witness:
  "RetrieveFromPool 15 (logCreateNew (0::nat)) () \<lparr>m_Pool = [(20, 2)]\<rparr> []
     = (Inr 0, \<lparr>m_Pool = [(20, 2)]\<rparr>, [CreateNew])
   \<and> RetrieveFromPool 15 (logCreateNew (0::nat)) () \<lparr>m_Pool = [(10, 1), (20, 2)]\<rparr> []
     = (Inr 1, \<lparr>m_Pool = [(20, 2)]\<rparr>, [])"
  using C4_RetrieveFromPool [of "\<lparr>m_Pool = [(20, 2::nat)]\<rparr>" 15 "logCreateNew 0" "()" "[]"]
        C4_RetrieveFromPool [of "\<lparr>m_Pool = [(10, 1::nat), (20, 2)]\<rparr>" 15 "logCreateNew 0" "()" "[]"]
  by (simp add: logCreateNew_def)

text \<open>
  C8. \<open>CFencePool::ReturnToPool(resource, fenceValue)\<close> never fails observably: it is a
  total function with no failure result, and for every pool state it either appends the
  entry \<open>(fenceValue, resource)\<close> at the tail of the pool (the caller's object is left
  empty), or, when allocating the pool entry fails with \<open>bad_alloc\<close>, leaves the pool
  unchanged and does not take the resource, which stays with the caller's owning pointer
  to be released by its destructor.
\<close>

theorem C8_ReturnToPool_never_fails:
  "(alloc_ok \<longrightarrow> ReturnToPool alloc_ok Resource FenceValue this
        = (this\<lparr>m_Pool := m_Pool this @ [(FenceValue, Resource)]\<rparr>, None))
   \<and> (\<not> alloc_ok \<longrightarrow> ReturnToPool alloc_ok Resource FenceValue this = (this, Some Resource))"
  by (simp add: ReturnToPool_def emplace_back_def)

theorem C8_ReturnToPool_never_fails_witness:
  "ReturnToPool True (7::nat) 50 \<lparr>m_Pool = [(40, 3)]\<rparr> = (\<lparr>m_Pool = [(40, 3), (50, 7)]\<rparr>, None)
   \<and> ReturnToPool False (7::nat) 50 \<lparr>m_Pool = [(40, 3)]\<rparr> = (\<lparr>m_Pool = [(40, 3)]\<rparr>, Some 7)"
  using C8_ReturnToPool_never_fails [of True "7::nat" 50 "\<lparr>m_Pool = [(40, 3)]\<rparr>"]
        C8_ReturnToPool_never_fails [of False "7::nat" 50 "\<lparr>m_Pool = [(40, 3)]\<rparr>"]
  by simp

text \<open>
  C3. \<open>CBoundedFencePool::RetrieveFromPool(completed, wait, create)\<close>:
  if the pool is empty it returns the result of \<open>create\<close>;
  else if the head entry's fence value is greater than \<open>completed\<close> and the pool's size is
  strictly less than \<open>maxInFlightDepth\<close> it returns the result of \<open>create\<close>, the pool
  keeping all its entries;
  else if the head's fence value is greater than \<open>completed\<close> and the pool's size is at
  least \<open>maxInFlightDepth\<close>, the world is changed by exactly one call \<open>wait(headFence)\<close>
  and nothing else, and once that call returns the head is removed and returned
  (\<open>create\<close> is not invoked; with the recording callbacks the log is the single entry
  \<open>WaitForFenceValue headFence\<close>);
  else (head fence \<open>\<le> completed\<close>) it removes and returns the head, calling nothing.
\<close>

theorem C3_BoundedRetrieveFromPool:
  "(m_Pool this = [] \<longrightarrow>
      BoundedRetrieveFromPool completed wait create args this w =
        (fst (create args w), this, snd (create args w)))
   \<and> (m_Pool this \<noteq> [] \<and> completed < fst (hd (m_Pool this))
        \<and> length (m_Pool this) < unat (m_MaxInFlightDepth this) \<longrightarrow>
      BoundedRetrieveFromPool completed wait create args this w =
        (fst (create args w), this, snd (create args w)))
   \<and> (m_Pool this \<noteq> [] \<and> completed < fst (hd (m_Pool this))
        \<and> unat (m_MaxInFlightDepth this) \<le> length (m_Pool this)
        \<and> fst (wait (fst (hd (m_Pool this))) w) = Inr () \<longrightarrow>
      BoundedRetrieveFromPool completed wait create args this w =
        (Inr (snd (hd (m_Pool this))), this\<lparr>m_Pool := tl (m_Pool this)\<rparr>,
         snd (wait (fst (hd (m_Pool this))) w)))
   \<and> (m_Pool that \<noteq> [] \<and> completed < fst (hd (m_Pool that))
        \<and> unat (m_MaxInFlightDepth that) \<le> length (m_Pool that) \<longrightarrow>
      BoundedRetrieveFromPool completed logWaitForFenceValue (logCreateNew fresh) () that []
        = (Inr (snd (hd (m_Pool that))), that\<lparr>m_Pool := tl (m_Pool that)\<rparr>,
           [WaitForFenceValue (fst (hd (m_Pool that)))]))
   \<and> (m_Pool this \<noteq> [] \<and> \<not> completed < fst (hd (m_Pool this)) \<longrightarrow>
      BoundedRetrieveFromPool completed wait create args this w =
        (Inr (snd (hd (m_Pool this))), this\<lparr>m_Pool := tl (m_Pool this)\<rparr>, w))"
  by (cases "m_Pool this"; cases "m_Pool that")
     (auto simp: BoundedRetrieveFromPool_def logWaitForFenceValue_def
           split: prod.splits sum.splits)

theorem C3_BoundedRetrieveFromPool_witness:
  "BoundedRetrieveFromPool 40 logWaitForFenceValue (logCreateNew (0::nat)) ()
      \<lparr>m_Pool = [(50, 7)], m_MaxInFlightDepth = 1\<rparr> []
     = (Inr 7, \<lparr>m_Pool = [], m_MaxInFlightDepth = 1\<rparr>, [WaitForFenceValue 50])
   \<and> BoundedRetrieveFromPool 40 logWaitForFenceValue (logCreateNew (0::nat)) ()
      \<lparr>m_Pool = [(50, 7)], m_MaxInFlightDepth = 2\<rparr> []
     = (Inr 0, \<lparr>m_Pool = [(50, 7)], m_MaxInFlightDepth = 2\<rparr>, [CreateNew])
   \<and> BoundedRetrieveFromPool 60 logWaitForFenceValue (logCreateNew (0::nat)) ()
      \<lparr>m_Pool = [(50, 7)], m_MaxInFlightDepth = 1\<rparr> []
     = (Inr 7, \<lparr>m_Pool = [], m_MaxInFlightDepth = 1\<rparr>, [])
   \<and> BoundedRetrieveFromPool 60 logWaitForFenceValue (logCreateNew (0::nat)) ()
      \<lparr>m_Pool = [], m_MaxInFlightDepth = 1\<rparr> []
     = (Inr 0, \<lparr>m_Pool = [], m_MaxInFlightDepth = 1\<rparr>, [CreateNew])"
  using C3_BoundedRetrieveFromPool [of "\<lparr>m_Pool = [(50, 7::nat)], m_MaxInFlightDepth = 1\<rparr>"
            40 logWaitForFenceValue "logCreateNew 0" "()" "[]"
            "\<lparr>m_Pool = [(50, 7::nat)], m_MaxInFlightDepth = 1\<rparr>" 0]
        C3_BoundedRetrieveFromPool [of "\<lparr>m_Pool = [(50, 7::nat)], m_MaxInFlightDepth = 2\<rparr>"
            40 logWaitForFenceValue "logCreateNew 0" "()" "[]"
            "\<lparr>m_Pool = [(50, 7::nat)], m_MaxInFlightDepth = 1\<rparr>" 0]
        C3_BoundedRetrieveFromPool [of "\<lparr>m_Pool = [(50, 7::nat)], m_MaxInFlightDepth = 1\<rparr>"
            60 logWaitForFenceValue "logCreateNew 0" "()" "[]"
            "\<lparr>m_Pool = [(50, 7::nat)], m_MaxInFlightDepth = 1\<rparr>" 0]
        C3_BoundedRetrieveFromPool [of "\<lparr>m_Pool = [], m_MaxInFlightDepth = 1\<rparr>"
            60 logWaitForFenceValue "logCreateNew (0::nat)" "()" "[]"
            "\<lparr>m_Pool = [(50, 7::nat)], m_MaxInFlightDepth = 1\<rparr>" 0]
  by (simp add: logCreateNew_def logWaitForFenceValue_def)

section \<open>Properties of the deferred deletion queue\<close>

lemma completionRequired_of_type:
  "m_completionRequired (RetiredSuballocationBlock_of_type MAX_VALID b al t v)"
  by (simp add: RetiredSuballocationBlock_of_type_def RetiredObject_of_type_def
      RetiredObject.defs RetiredSuballocationBlock.defs)

lemma completionRequired_of_array:
  "m_completionRequired (RetiredSuballocationBlock_of_array MAX_VALID b al ids)"
  by (simp add: RetiredSuballocationBlock_of_array_def RetiredObject_of_array_def
      RetiredObject.defs RetiredSuballocationBlock.defs)

lemma spec_ReadyToDestroy_required:
  assumes "ReadyToDestroy spec_ReadyToDestroy ctx this" and "m_completionRequired this"
    and "t < length (m_lastCommandListIDs this)" and "0 < m_lastCommandListIDs this ! t"
  shows "m_lastCommandListIDs this ! t \<le> completedFenceValue ctx t"
  using assms by (auto simp: ReadyToDestroy_def spec_ReadyToDestroy_def list_all_iff)

text \<open>
  C9. \<open>DeferredDeletionQueueManager::AddSuballocationToQueue\<close> (both overloads): if the
  newly created \<open>RetiredSuballocationBlock\<close> is already ready-to-destroy, it is destroyed
  immediately (the suballocation is handed to \<open>Deallocate\<close> of its parent allocator) and
  the manager, hence the deferred-suballocation queue, is unchanged; if it is not
  ready-to-destroy, it is pushed at the back of the queue and nothing is deallocated.
\<close>

theorem C9_AddSuballocationToQueue:
  "(ReadyToDestroy ready pParent (RetiredSuballocationBlock_of_type MAX_VALID b al t v) \<longrightarrow>
      AddSuballocationToQueue ready deallocate MAX_VALID pParent b al t v this w
        = (this, deallocate al b w))
   \<and> (\<not> ReadyToDestroy ready pParent (RetiredSuballocationBlock_of_type MAX_VALID b al t v) \<longrightarrow>
      AddSuballocationToQueue ready deallocate MAX_VALID pParent b al t v this w
        = (this\<lparr>m_DeferredSuballocationDeletionQueue :=
                   m_DeferredSuballocationDeletionQueue this
                     @ [RetiredSuballocationBlock_of_type MAX_VALID b al t v]\<rparr>, w))
   \<and> (ReadyToDestroy ready pParent (RetiredSuballocationBlock_of_array MAX_VALID b al ids) \<longrightarrow>
      AddSuballocationToQueue_array ready deallocate MAX_VALID pParent b al ids this w
        = (this, deallocate al b w))
   \<and> (\<not> ReadyToDestroy ready pParent (RetiredSuballocationBlock_of_array MAX_VALID b al ids) \<longrightarrow>
      AddSuballocationToQueue_array ready deallocate MAX_VALID pParent b al ids this w
        = (this\<lparr>m_DeferredSuballocationDeletionQueue :=
                   m_DeferredSuballocationDeletionQueue this
                     @ [RetiredSuballocationBlock_of_array MAX_VALID b al ids]\<rparr>, w))"
  by (simp add: AddSuballocationToQueue_def AddSuballocationToQueue_array_def Let_def Destroy_def
      RetiredSuballocationBlock_of_type_def RetiredSuballocationBlock_of_array_def
      RetiredObject.defs RetiredSuballocationBlock.defs)

text \<open>
  A witness with a context that is just the completed fence value, every recorded fence
  having to be at most that value, and a world that lists the deallocated blocks.
  A block that was never submitted (fence 0) is destroyed at once; a block with fence 5
  while 3 is completed is queued.
\<close>

theorem C9_AddSuballocationToQueue_witness:
  "AddSuballocationToQueue (\<lambda>c r ids ws. list_all (\<lambda>v. v \<le> c) ids)
       (\<lambda>al b w. w @ [(al, b)]) 1 (3::u64) ''block'' ''buddy'' 0 0
       \<lparr>m_DeferredObjectDeletionQueue = ([]::unit list),
        m_DeferredSuballocationDeletionQueue = ([]::(unit, string, string) RetiredSuballocationBlock list)\<rparr> []
     = (\<lparr>m_DeferredObjectDeletionQueue = [], m_DeferredSuballocationDeletionQueue = []\<rparr>,
        [(''buddy'', ''block'')])
   \<and> AddSuballocationToQueue (\<lambda>c r ids ws. list_all (\<lambda>v. v \<le> c) ids)
       (\<lambda>al b w. w @ [(al, b)]) 1 (3::u64) ''block'' ''buddy'' 0 5
       \<lparr>m_DeferredObjectDeletionQueue = ([]::unit list),
        m_DeferredSuballocationDeletionQueue = ([]::(unit, string, string) RetiredSuballocationBlock list)\<rparr> []
     = (\<lparr>m_DeferredObjectDeletionQueue = [],
         m_DeferredSuballocationDeletionQueue =
           [RetiredSuballocationBlock_of_type 1 ''block'' ''buddy'' 0 5]\<rparr>, [])"
  using C9_AddSuballocationToQueue [of "\<lambda>c r ids ws. list_all (\<lambda>v. v \<le> c) ids" "3::u64"
          1 "''block''" "''buddy''" 0 0 "\<lambda>al b w. w @ [(al, b)]"
          "\<lparr>m_DeferredObjectDeletionQueue = ([]::unit list),
        m_DeferredSuballocationDeletionQueue = ([]::(unit, string, string) RetiredSuballocationBlock list)\<rparr>"
          "[]" "[]"]
        C9_AddSuballocationToQueue [of "\<lambda>c r ids ws. list_all (\<lambda>v. v \<le> c) ids" "3::u64"
          1 "''block''" "''buddy''" 0 5 "\<lambda>al b w. w @ [(al, b)]"
          "\<lparr>m_DeferredObjectDeletionQueue = ([]::unit list),
        m_DeferredSuballocationDeletionQueue = ([]::(unit, string, string) RetiredSuballocationBlock list)\<rparr>"
          "[]" "[]"]
  by (simp add: ReadyToDestroy_def RetiredSuballocationBlock_of_type_def RetiredObject_of_type_def
      RetiredObject.defs RetiredSuballocationBlock.defs)

text \<open>
  C10. Every \<open>RetiredSuballocationBlock\<close> is constructed with
  \<open>completionRequired = true\<close> (both constructors hard-code it). So, with the
  ready-to-destroy predicate of the spec, a suballocation deletion that is ready has every
  recorded non-zero fence value completed, whether or not the device is being destroyed:
  the check is never waived, whereas a retired object with \<open>completionRequired = false\<close>
  and no deferred waits is ready on teardown whatever its fence values are.
\<close>

theorem C10_suballocation_completion_required:
  "m_completionRequired (RetiredSuballocationBlock_of_type MAX_VALID b al t v)
   \<and> m_completionRequired (RetiredSuballocationBlock_of_array MAX_VALID b al ids)
   \<and> (\<forall>blk \<in> {RetiredSuballocationBlock_of_type MAX_VALID b al t v,
                 RetiredSuballocationBlock_of_array MAX_VALID b al ids}.
        ReadyToDestroy spec_ReadyToDestroy ctx blk \<longrightarrow>
        (\<forall>i < length (m_lastCommandListIDs blk).
           0 < m_lastCommandListIDs blk ! i \<longrightarrow>
           m_lastCommandListIDs blk ! i \<le> completedFenceValue ctx i))
   \<and> (deviceBeingDestroyed ctx \<longrightarrow>
        ReadyToDestroy spec_ReadyToDestroy ctx (RetiredObject_of_type MAX_VALID t v False [])
        \<and> ReadyToDestroy spec_ReadyToDestroy ctx (RetiredObject_of_array MAX_VALID ids False []))"
proof (intro conjI ballI impI allI)
  show "m_completionRequired (RetiredSuballocationBlock_of_type MAX_VALID b al t v)"
    by (rule completionRequired_of_type)
  show "m_completionRequired (RetiredSuballocationBlock_of_array MAX_VALID b al ids)"
    by (rule completionRequired_of_array)
next
  fix blk i
  assume blk: "blk \<in> {RetiredSuballocationBlock_of_type MAX_VALID b al t v,
                 RetiredSuballocationBlock_of_array MAX_VALID b al ids}"
    and rdy: "ReadyToDestroy spec_ReadyToDestroy ctx blk"
    and i: "i < length (m_lastCommandListIDs blk)" "0 < m_lastCommandListIDs blk ! i"
  from blk have req: "m_completionRequired blk"
    using completionRequired_of_type completionRequired_of_array by auto
  show "m_lastCommandListIDs blk ! i \<le> completedFenceValue ctx i"
    by (rule spec_ReadyToDestroy_required [OF rdy req i])
next
  assume "deviceBeingDestroyed ctx"
  then show "ReadyToDestroy spec_ReadyToDestroy ctx (RetiredObject_of_type MAX_VALID t v False [])"
    by (simp add: ReadyToDestroy_def spec_ReadyToDestroy_def spec_DeferredWaitsSatisfied_def
        RetiredObject_of_type_def list_all_iff)
next
  assume "deviceBeingDestroyed ctx"
  then show "ReadyToDestroy spec_ReadyToDestroy ctx (RetiredObject_of_array MAX_VALID ids False [])"
    by (simp add: ReadyToDestroy_def spec_ReadyToDestroy_def spec_DeferredWaitsSatisfied_def
        RetiredObject_of_array_def list_all_iff)
qed

text \<open>
  A witness on teardown with one command list type, completed fence 3: the suballocation
  retired with fence 2 is ready and its fence is completed; the one retired with fence 5 is
  not ready, although an object with \<open>completionRequired = false\<close> and fence 5 is.
\<close>

theorem C10_suballocation_completion_required_witness:
  "ReadyToDestroy spec_ReadyToDestroy
       \<lparr>completedFenceValue = (\<lambda>t. 3), externalFenceCompleted = (\<lambda>f. 0), deviceBeingDestroyed = True\<rparr>
       (RetiredSuballocationBlock_of_type 1 ''block'' ''buddy'' 0 2)
   \<and> (2::u64) \<le> 3
   \<and> \<not> ReadyToDestroy spec_ReadyToDestroy
       \<lparr>completedFenceValue = (\<lambda>t. 3), externalFenceCompleted = (\<lambda>f. 0), deviceBeingDestroyed = True\<rparr>
       (RetiredSuballocationBlock_of_type 1 ''block'' ''buddy'' 0 5)
   \<and> ReadyToDestroy spec_ReadyToDestroy
       \<lparr>completedFenceValue = (\<lambda>t. 3), externalFenceCompleted = (\<lambda>f. 0), deviceBeingDestroyed = True\<rparr>
       (RetiredObject_of_type 1 0 5 False [])"
  using C10_suballocation_completion_required [of 1 "''block''" "''buddy''" 0 2 "[2]"
          "\<lparr>completedFenceValue = (\<lambda>t. 3), externalFenceCompleted = (\<lambda>f. 0), deviceBeingDestroyed = True\<rparr>"]
        C10_suballocation_completion_required [of 1 "''block''" "''buddy''" 0 5 "[5]"
          "\<lparr>completedFenceValue = (\<lambda>t. 3), externalFenceCompleted = (\<lambda>f. 0), deviceBeingDestroyed = True\<rparr>"]
  by (simp add: ReadyToDestroy_def spec_ReadyToDestroy_def spec_DeferredWaitsSatisfied_def
      RetiredSuballocationBlock_of_type_def RetiredObject_of_type_def
      RetiredSuballocationBlock_of_array_def RetiredObject_of_array_def
      RetiredObject.defs RetiredSuballocationBlock.defs)

section \<open>Properties of the fenced ring buffer\<close>

subsection \<open>Words, mask bits and sums\<close>

lemma unat_u32_lt: "unat (x::u32) < 4294967296"
  using unsigned_less [of x, where ?'a = nat] by simp

lemma unat_u64_lt: "unat (x::u64) < 18446744073709551616"
  using unsigned_less [of x, where ?'a = nat] by simp

lemma unat_ucast_32_64: "unat (ucast (x::u32) :: u64) = unat x"
  using unat_u32_lt [of x] by (simp add: unsigned_ucast_eq take_bit_nat_eq_self)

lemma unat_ucast_64_32: "unat (y::u64) < 4294967296 \<Longrightarrow> unat (ucast y :: u32) = unat y"
  by (simp add: unsigned_ucast_eq take_bit_nat_eq_self)

lemma mask_test: "(m AND 2 ^ i = 0) = (\<not> bit m i)" for m :: u32
  by (rule and_exp_eq_0_iff_not_bit)

lemma mask_set: "i < 32 \<Longrightarrow> bit (m OR 2 ^ i) j = (bit m j \<or> j = i)" for m :: u32
  by (auto simp: bit_or_iff bit_exp_iff possible_bit_word)

lemma mask_clear: "bit (m AND NOT (2 ^ i)) j = (bit m j \<and> j \<noteq> i)" for m :: u32
  by (auto simp: bit_and_iff bit_not_iff bit_exp_iff possible_bit_word dest: bit_imp_le_length)

lemma IsLedgerEntryAvailable_bit:
  "IsLedgerEntryAvailable s j = (\<not> bit (m_LedgerMask s) (unat j))"
  by (simp add: IsLedgerEntryAvailable_def mask_test)

lemma sum_list_change_one:
  fixes g g' :: "nat \<Rightarrow> nat"
  assumes "j < n" and "\<And>i. i < n \<Longrightarrow> i \<noteq> j \<Longrightarrow> g' i = g i"
  shows "sum_list (map g' [0..<n]) + g j = sum_list (map g [0..<n]) + g' j"
proof -
  have fin: "finite {0..<n}" and jin: "j \<in> {0..<n}"
    using assms(1) by auto
  have "sum g' ({0..<n} - {j}) = sum g ({0..<n} - {j})"
    by (rule sum.cong) (use assms(2) in auto)
  then show ?thesis
    by (simp add: interv_sum_list_conv_sum_set_nat sum.remove [OF fin jin])
qed

lemma sum_list_member_le:
  fixes g :: "nat \<Rightarrow> nat"
  assumes "j < n"
  shows "g j \<le> sum_list (map g [0..<n])"
  using assms by (intro member_le_sum_list) auto

lemma ledger_index_next: "unat ((x + 1) mod of_nat cLedgerSize :: u32) < cLedgerSize"
  by (simp add: cLedgerSize_def unat_mod)


lemma live_sum_change:
  assumes j: "j < cLedgerSize"
    and same: "\<And>i. i < cLedgerSize \<Longrightarrow> i \<noteq> j \<Longrightarrow>
                bit (m_LedgerMask s') i = bit (m_LedgerMask s) i
                \<and> m_Ledger s' ! i = m_Ledger s ! i"
  shows "live_sum s' + (if bit (m_LedgerMask s) j then unat (m_NumAllocations (m_Ledger s ! j)) else 0)
       = live_sum s + (if bit (m_LedgerMask s') j then unat (m_NumAllocations (m_Ledger s' ! j)) else 0)"
  unfolding live_sum_def
  by (rule sum_list_change_one [OF j]) (simp add: same)

lemma live_sum_ge:
  assumes "j < cLedgerSize" and "bit (m_LedgerMask s) j"
  shows "unat (m_NumAllocations (m_Ledger s ! j)) \<le> live_sum s"
proof -
  let ?g = "\<lambda>i. if bit (m_LedgerMask s) i then unat (m_NumAllocations (m_Ledger s ! i)) else 0"
  have "?g j \<le> sum_list (map ?g [0..<cLedgerSize])"
    by (rule sum_list_member_le [OF assms(1)])
  with assms(2) show ?thesis by (simp add: live_sum_def)
qed

lemma live_sum_cong:
  "m_LedgerMask s' = m_LedgerMask s \<Longrightarrow> m_Ledger s' = m_Ledger s \<Longrightarrow> live_sum s' = live_sum s"
  by (simp add: live_sum_def cong: if_cong)

lemma cLedgerSize_le_32: "i < cLedgerSize \<Longrightarrow> i < 32"
  by (simp add: cLedgerSize_def)

lemma next_index_lt: "unat (next_index s) < cLedgerSize"
  by (simp add: next_index_def ledger_index_next)

lemma next_index_lt_32: "unat (next_index s) < 32"
  using next_index_lt [of s] by (simp add: cLedgerSize_def)

lemma Allocate_ledger_result:
  obtains
    (keep) "\<not> f > m_FenceValue (GetCurrentLedgeEntry s)" "Allocate_ledger f s = (S_OK, s)"
  | (fail) "f > m_FenceValue (GetCurrentLedgeEntry s)" "bit (m_LedgerMask s) (unat (next_index s))"
      "Allocate_ledger f s = (E_FAIL, s\<lparr>m_LedgerIndex := next_index s\<rparr>)"
  | (move) "f > m_FenceValue (GetCurrentLedgeEntry s)" "\<not> bit (m_LedgerMask s) (unat (next_index s))"
      "Allocate_ledger f s =
         (S_OK, s\<lparr>m_LedgerIndex := next_index s,
                  m_LedgerMask := m_LedgerMask s OR 2 ^ unat (next_index s),
                  m_Ledger := (m_Ledger s)[unat (next_index s) :=
                                \<lparr>m_FenceValue = f, m_NumAllocations = 0\<rparr>]\<rparr>)"
proof -
  consider "\<not> f > m_FenceValue (GetCurrentLedgeEntry s)"
    | "f > m_FenceValue (GetCurrentLedgeEntry s)" "bit (m_LedgerMask s) (unat (next_index s))"
    | "f > m_FenceValue (GetCurrentLedgeEntry s)" "\<not> bit (m_LedgerMask s) (unat (next_index s))"
    by blast
  then show thesis
  proof cases
    case 1
    then show thesis by (intro keep) (simp_all add: Allocate_ledger_def)
  next
    case 2
    then have "Allocate_ledger f s = (E_FAIL, s\<lparr>m_LedgerIndex := next_index s\<rparr>)"
      by (simp add: Allocate_ledger_def MoveToNextLedgerEntry_def Let_def
          IsLedgerEntryAvailable_bit next_index_def)
    with 2 show thesis by (intro fail)
  next
    case 3
    then have "Allocate_ledger f s =
         (S_OK, s\<lparr>m_LedgerIndex := next_index s,
                  m_LedgerMask := m_LedgerMask s OR 2 ^ unat (next_index s),
                  m_Ledger := (m_Ledger s)[unat (next_index s) :=
                                \<lparr>m_FenceValue = f, m_NumAllocations = 0\<rparr>]\<rparr>)"
      by (simp add: Allocate_ledger_def MoveToNextLedgerEntry_def Let_def
          IsLedgerEntryAvailable_bit next_index_def)
    with 3 show thesis by (intro move)
  qed
qed

lemma Allocate_ledger_fields:
  "m_Head (snd (Allocate_ledger f s)) = m_Head s"
  "m_Tail (snd (Allocate_ledger f s)) = m_Tail s"
  "m_Size (snd (Allocate_ledger f s)) = m_Size s"
  "length (m_Ledger (snd (Allocate_ledger f s))) = length (m_Ledger s)"
proof -
  show "m_Head (snd (Allocate_ledger f s)) = m_Head s"
    by (cases rule: Allocate_ledger_result [where f = f and s = s]) simp_all
  show "m_Tail (snd (Allocate_ledger f s)) = m_Tail s"
    by (cases rule: Allocate_ledger_result [where f = f and s = s]) simp_all
  show "m_Size (snd (Allocate_ledger f s)) = m_Size s"
    by (cases rule: Allocate_ledger_result [where f = f and s = s]) simp_all
  show "length (m_Ledger (snd (Allocate_ledger f s))) = length (m_Ledger s)"
    by (cases rule: Allocate_ledger_result [where f = f and s = s]) simp_all
qed

lemma Allocate_ledger_cases:
  "fst (Allocate_ledger f s) = S_OK \<or> fst (Allocate_ledger f s) = E_FAIL"
  by (cases "fst (Allocate_ledger f s)") auto

lemma Allocate_ledger_fail_iff:
  "fst (Allocate_ledger f s) = E_FAIL \<longleftrightarrow> ledger_saturated f s"
  by (cases rule: Allocate_ledger_result [where f = f and s = s])
     (simp_all add: ledger_saturated_def IsLedgerEntryAvailable_bit next_index_def)

lemma Allocate_ledger_index:
  "unat (m_LedgerIndex s) < cLedgerSize \<Longrightarrow>
   unat (m_LedgerIndex (snd (Allocate_ledger f s))) < cLedgerSize"
  by (cases rule: Allocate_ledger_result [where f = f and s = s]) (simp_all add: next_index_lt)

lemma Allocate_ledger_wf: "ring_wf s \<Longrightarrow> ring_wf (snd (Allocate_ledger f s))"
  by (simp add: ring_wf_def Allocate_ledger_fields Allocate_ledger_index)

lemma Allocate_ledger_fence:
  assumes "length (m_Ledger s) = cLedgerSize" and "fst (Allocate_ledger f s) = S_OK"
  shows "f \<le> m_FenceValue (GetCurrentLedgeEntry (snd (Allocate_ledger f s)))"
  using assms next_index_lt [of s]
  by (cases rule: Allocate_ledger_result [where f = f and s = s]) (simp_all add: GetCurrentLedgeEntry_def)

lemma Allocate_ledger_idem:
  assumes "length (m_Ledger s) = cLedgerSize" and "fst (Allocate_ledger f s) = S_OK"
  shows "Allocate_ledger f (snd (Allocate_ledger f s)) = (S_OK, snd (Allocate_ledger f s))"
proof -
  have "\<not> f > m_FenceValue (GetCurrentLedgeEntry (snd (Allocate_ledger f s)))"
    using Allocate_ledger_fence [OF assms] by (simp add: not_less)
  then show ?thesis
    by (simp add: Allocate_ledger_def [of f "snd (Allocate_ledger f s)"])
qed

lemma Allocate_ledger_live:
  assumes inv: "ring_inv s" and nz: "f \<noteq> 0" and ok: "fst (Allocate_ledger f s) = S_OK"
  shows "bit (m_LedgerMask (snd (Allocate_ledger f s)))
             (unat (m_LedgerIndex (snd (Allocate_ledger f s))))"
proof (cases rule: Allocate_ledger_result [where f = f and s = s])
  case keep
  then have "m_FenceValue (GetCurrentLedgeEntry s) \<noteq> 0"
    using nz by (auto simp: word_neq_0_conv not_less)
  with inv have "bit (m_LedgerMask s) (unat (m_LedgerIndex s))"
    by (auto simp: ring_inv_def ring_wf_def GetCurrentLedgeEntry_def)
  with keep show ?thesis by simp
next
  case fail
  with ok show ?thesis by simp
next
  case move
  then show ?thesis by (simp add: mask_set next_index_lt_32)
qed

lemma Allocate_ledger_live_sum:
  assumes inv: "ring_inv s"
  shows "live_sum (snd (Allocate_ledger f s)) = live_sum s"
proof (cases rule: Allocate_ledger_result [where f = f and s = s])
  case keep
  then show ?thesis by simp
next
  case fail
  then show ?thesis by (auto intro!: live_sum_cong)
next
  case move
  let ?j = "unat (next_index s)"
  let ?s' = "snd (Allocate_ledger f s)"
  have j: "?j < cLedgerSize" by (rule next_index_lt)
  have len: "length (m_Ledger s) = cLedgerSize"
    using inv by (simp add: ring_inv_def ring_wf_def)
  have "live_sum ?s' + (if bit (m_LedgerMask s) ?j then unat (m_NumAllocations (m_Ledger s ! ?j)) else 0)
       = live_sum s + (if bit (m_LedgerMask ?s') ?j then unat (m_NumAllocations (m_Ledger ?s' ! ?j)) else 0)"
    by (rule live_sum_change [OF j]) (simp add: move mask_set next_index_lt_32)
  then show ?thesis
    using move j len by simp
qed

lemma Allocate_ledger_zero:
  assumes len: "length (m_Ledger s) = cLedgerSize"
    and zero: "\<forall>i < cLedgerSize. \<not> bit (m_LedgerMask s) i \<longrightarrow> m_FenceValue (m_Ledger s ! i) = 0"
    and i: "i < cLedgerSize" "\<not> bit (m_LedgerMask (snd (Allocate_ledger f s))) i"
  shows "m_FenceValue (m_Ledger (snd (Allocate_ledger f s)) ! i) = 0"
proof (cases rule: Allocate_ledger_result [where f = f and s = s])
  case keep
  with zero i show ?thesis by simp
next
  case fail
  with zero i show ?thesis by simp
next
  case move
  with i have "i \<noteq> unat (next_index s)" "\<not> bit (m_LedgerMask s) i"
    by (simp_all add: mask_set next_index_lt_32)
  with move zero i show ?thesis by simp
qed

lemma Allocate_ledger_inv:
  assumes inv: "ring_inv s"
  shows "ring_inv (snd (Allocate_ledger f s))"
proof -
  let ?s' = "snd (Allocate_ledger f s)"
  have wf: "ring_wf ?s'"
    using inv by (simp add: ring_inv_def Allocate_ledger_wf)
  have zero: "\<forall>i < cLedgerSize. \<not> bit (m_LedgerMask ?s') i \<longrightarrow> m_FenceValue (m_Ledger ?s' ! i) = 0"
    using inv Allocate_ledger_zero [of s _ f] by (simp add: ring_inv_def ring_wf_def)
  show ?thesis
    using inv wf zero
    by (simp add: ring_inv_def Allocate_ledger_fields Allocate_ledger_live_sum [OF inv])
qed

lemma DereferenceTail_Some:
  assumes "m_Size s \<noteq> 0"
  obtains t32 where "DereferenceTail s = Some t32"
    and "unat t32 = unat (m_Tail s) mod unat (m_Size s)"
proof -
  have pos: "0 < unat (m_Size s)"
    using assms by (simp add: unat_gt_0)
  have "unat (m_Tail s mod (ucast (m_Size s) :: u64)) = unat (m_Tail s) mod unat (m_Size s)"
    by (simp add: unat_mod unat_ucast_32_64)
  moreover have "unat (m_Tail s) mod unat (m_Size s) < 4294967296"
    using mod_less_divisor [OF pos, of "unat (m_Tail s)"] unat_u32_lt [of "m_Size s"] by linarith
  ultimately have "unat (ucast (m_Tail s mod (ucast (m_Size s) :: u64)) :: u32)
      = unat (m_Tail s) mod unat (m_Size s)"
    by (simp add: unat_ucast_64_32)
  with assms show thesis
    by (intro that [of "ucast (m_Tail s mod (ucast (m_Size s) :: u64))"])
       (simp_all add: DereferenceTail_def)
qed

lemma DereferenceTail_None: "m_Size s = 0 \<Longrightarrow> DereferenceTail s = None"
  by (simp add: DereferenceTail_def)

lemma wraps_word_iff:
  fixes t32 :: u32
  assumes "unat t32 = unat (m_Tail s) mod unat (m_Size s)"
  shows "((ucast t32 :: u64) + ucast N > ucast (m_Size s)) = request_wraps N s"
proof -
  have "unat t32 + unat N < 2 ^ 64"
    using unat_u32_lt [of t32] unat_u32_lt [of N] by simp
  then have "unat ((ucast t32 :: u64) + ucast N) = unat t32 + unat N"
    by (simp add: unat_word_ariths unat_ucast_32_64)
  then show ?thesis
    using assms by (simp add: word_less_nat_alt unat_ucast_32_64 request_wraps_def)
qed

lemma wrap_padding_bounds:
  assumes "m_Size s \<noteq> 0"
  shows "0 < wrap_padding s" and "wrap_padding s \<le> unat (m_Size s)"
    and "unat (m_Tail s) mod unat (m_Size s) + wrap_padding s = unat (m_Size s)"
proof -
  have pos: "0 < unat (m_Size s)"
    using assms by (simp add: unat_gt_0)
  have lt: "unat (m_Tail s) mod unat (m_Size s) < unat (m_Size s)"
    by (rule mod_less_divisor [OF pos])
  from lt show "0 < wrap_padding s" by (simp add: wrap_padding_def)
  show "wrap_padding s \<le> unat (m_Size s)" by (simp add: wrap_padding_def)
  from lt show "unat (m_Tail s) mod unat (m_Size s) + wrap_padding s = unat (m_Size s)"
    by (simp add: wrap_padding_def)
qed

lemma unat_of_nat_padding:
  assumes "m_Size s \<noteq> 0"
  shows "unat (of_nat (wrap_padding s) :: u32) = wrap_padding s"
proof -
  have "wrap_padding s < 2 ^ 32"
    using wrap_padding_bounds(2) [OF assms] unat_u32_lt [of "m_Size s"] by simp
  then show ?thesis by (simp add: unat_of_nat)
qed

lemma padding_word:
  fixes t32 :: u32
  assumes nz: "m_Size s \<noteq> 0" and t32: "unat t32 = unat (m_Tail s) mod unat (m_Size s)"
  shows "(ucast ((ucast (m_Size s) :: u64) - ucast t32) :: u32) = of_nat (wrap_padding s)"
proof -
  have pos: "0 < unat (m_Size s)"
    using nz by (simp add: unat_gt_0)
  have lt: "unat t32 < unat (m_Size s)"
    unfolding t32 by (rule mod_less_divisor [OF pos])
  then have le: "(ucast t32 :: u64) \<le> ucast (m_Size s)"
    by (simp add: word_le_nat_alt unat_ucast_32_64)
  have "unat ((ucast (m_Size s) :: u64) - ucast t32) = unat (m_Size s) - unat t32"
    using le by (simp add: unat_sub unat_ucast_32_64)
  moreover have "unat (m_Size s) - unat t32 < 4294967296"
    using unat_u32_lt [of "m_Size s"] by linarith
  ultimately have "unat (ucast ((ucast (m_Size s) :: u64) - ucast t32) :: u32)
        = unat (m_Size s) - unat t32"
    by (simp add: unat_ucast_64_32)
  then show ?thesis
    using t32 unat_of_nat_padding [OF nz]
    by (simp add: word_unat_eq_iff wrap_padding_def)
qed

lemma unat_tail_add:
  fixes N :: u32
  assumes "unat (m_Tail s) + unat N < 2 ^ 64"
  shows "unat (m_Tail s + ucast N) = unat (m_Tail s) + unat N"
  using assms by (simp add: unat_word_ariths unat_ucast_32_64)

lemma tail_add_le_iff:
  fixes N :: u32
  assumes "unat (m_Tail s) + unat N < 2 ^ 64"
  shows "(m_Tail s + ucast N \<le> m_Head s) = (unat (m_Tail s) + unat N \<le> unat (m_Head s))"
  by (simp add: word_le_nat_alt unat_tail_add [OF assms])

lemma Allocate_commit_fits:
  assumes "m_Size s \<noteq> 0" and "unat (m_Tail s) + unat N < 2 ^ 64"
    and "unat (m_Tail s) + unat N \<le> unat (m_Head s)"
  obtains off where "Allocate_commit N s = Some (S_OK, off, commit N s)"
    and "unat off = unat (m_Tail s) mod unat (m_Size s)"
proof -
  obtain t32 where t32: "DereferenceTail s = Some t32" "unat t32 = unat (m_Tail s) mod unat (m_Size s)"
    using DereferenceTail_Some [OF assms(1)] by blast
  have "Allocate_commit N s = Some (S_OK, t32, commit N s)"
    using assms(3) t32(1) by (simp add: Allocate_commit_def tail_add_le_iff [OF assms(2)] commit_def)
  then show thesis using t32(2) by (rule that)
qed

lemma Allocate_commit_full:
  assumes "unat (m_Tail s) + unat N < 2 ^ 64"
    and "\<not> unat (m_Tail s) + unat N \<le> unat (m_Head s)"
  shows "Allocate_commit N s = Some (E_FAIL, - 1, s)"
  using assms(2) by (simp add: Allocate_commit_def tail_add_le_iff [OF assms(1)])

lemma Allocate_zero:
  "Allocate 0 f out s = (case DereferenceTail s of None \<Rightarrow> None | Some off \<Rightarrow> Some (S_OK, off, s))"
  by (simp add: Allocate.simps [of 0])

lemma Allocate_padding:
  assumes wf: "ring_wf s1" and idem: "Allocate_ledger f s1 = (S_OK, s1)"
  shows "Allocate (of_nat (wrap_padding s1)) f out s1 = Allocate_commit (of_nat (wrap_padding s1)) s1"
proof -
  let ?r = "of_nat (wrap_padding s1) :: u32"
  have nz: "m_Size s1 \<noteq> 0" using wf by (simp add: ring_wf_def)
  have r: "unat ?r = wrap_padding s1" by (rule unat_of_nat_padding [OF nz])
  have rnz: "?r \<noteq> 0"
    using wrap_padding_bounds(1) [OF nz] r by (auto simp: word_unat_eq_iff)
  obtain t32 where t32: "DereferenceTail s1 = Some t32" "unat t32 = unat (m_Tail s1) mod unat (m_Size s1)"
    using DereferenceTail_Some [OF nz] by blast
  have "\<not> request_wraps ?r s1"
    using wrap_padding_bounds(3) [OF nz] by (simp add: request_wraps_def r)
  then have nowrap: "\<not> (ucast t32 :: u64) + ucast ?r > ucast (m_Size s1)"
    by (simp only: wraps_word_iff [OF t32(2)] not_False_eq_True)
  show ?thesis
    by (subst Allocate.simps) (use rnz idem t32(1) nowrap in \<open>simp del: of_nat_eq_0_iff\<close>)
qed

lemma Allocate_nonzero:
  assumes N: "N \<noteq> 0" and wf: "ring_wf s"
  shows "Allocate N f out s =
     (if fst (Allocate_ledger f s) = E_FAIL then Some (E_FAIL, out, snd (Allocate_ledger f s))
      else if request_wraps N (snd (Allocate_ledger f s)) then
        (case Allocate_commit (of_nat (wrap_padding (snd (Allocate_ledger f s))))
                (snd (Allocate_ledger f s)) of
           None \<Rightarrow> None
         | Some (hr, dummy, s2) \<Rightarrow>
             if hr = E_FAIL then Some (E_FAIL, out, s2) else Allocate_commit N s2)
      else Allocate_commit N (snd (Allocate_ledger f s)))"
proof (cases "fst (Allocate_ledger f s) = E_FAIL")
  case True
  then show ?thesis using N by (simp add: Allocate.simps [of N])
next
  case False
  let ?s1 = "snd (Allocate_ledger f s)"
  have ok: "fst (Allocate_ledger f s) = S_OK"
    using False Allocate_ledger_cases [of f s] by simp
  have wf1: "ring_wf ?s1" by (rule Allocate_ledger_wf [OF wf])
  have nz: "m_Size ?s1 \<noteq> 0" using wf1 by (simp add: ring_wf_def)
  have len: "length (m_Ledger s) = cLedgerSize" using wf by (simp add: ring_wf_def)
  have idem: "Allocate_ledger f ?s1 = (S_OK, ?s1)"
    by (rule Allocate_ledger_idem [OF len ok])
  obtain t32 where t32: "DereferenceTail ?s1 = Some t32" "unat t32 = unat (m_Tail ?s1) mod unat (m_Size ?s1)"
    using DereferenceTail_Some [OF nz] by blast
  have pad: "Allocate (ucast ((ucast (m_Size ?s1) :: u64) - ucast t32)) f 0 ?s1
      = Allocate_commit (of_nat (wrap_padding ?s1)) ?s1"
    by (simp only: padding_word [OF nz t32(2)] Allocate_padding [OF wf1 idem])
  show ?thesis
    by (subst Allocate.simps)
       (simp only: N False if_False t32(1) option.case wraps_word_iff [OF t32(2)] pad)
qed

lemma commit_fields:
  "m_Head (commit N s) = m_Head s"
  "m_Size (commit N s) = m_Size s"
  "m_Tail (commit N s) = m_Tail s + ucast N"
  "m_LedgerMask (commit N s) = m_LedgerMask s"
  "m_LedgerIndex (commit N s) = m_LedgerIndex s"
  "length (m_Ledger (commit N s)) = length (m_Ledger s)"
  by (simp_all add: commit_def)

lemma commit_wf: "ring_wf s \<Longrightarrow> ring_wf (commit N s)"
  by (simp add: ring_wf_def commit_fields)

lemma commit_entry:
  assumes "unat (m_LedgerIndex s) < length (m_Ledger s)"
  shows "m_NumAllocations (GetCurrentLedgeEntry (commit N s))
           = m_NumAllocations (GetCurrentLedgeEntry s) + N"
    and "m_FenceValue (GetCurrentLedgeEntry (commit N s)) = m_FenceValue (GetCurrentLedgeEntry s)"
  using assms by (simp_all add: commit_def GetCurrentLedgeEntry_def)

lemma commit_live_sum:
  assumes wf: "ring_wf s" and live: "bit (m_LedgerMask s) (unat (m_LedgerIndex s))"
    and room: "live_sum s + unat N < 2 ^ 32"
  shows "live_sum (commit N s) = live_sum s + unat N"
proof -
  let ?j = "unat (m_LedgerIndex s)"
  have j: "?j < cLedgerSize" and len: "length (m_Ledger s) = cLedgerSize"
    using wf by (simp_all add: ring_wf_def)
  have "unat (m_NumAllocations (m_Ledger s ! ?j)) \<le> live_sum s"
    by (rule live_sum_ge [OF j live])
  with room have "unat (m_NumAllocations (m_Ledger s ! ?j)) + unat N < 2 ^ 32"
    by simp
  then have add: "unat (m_NumAllocations (m_Ledger s ! ?j) + N)
      = unat (m_NumAllocations (m_Ledger s ! ?j)) + unat N"
    by (simp add: unat_word_ariths)
  have "live_sum (commit N s)
          + (if bit (m_LedgerMask s) ?j then unat (m_NumAllocations (m_Ledger s ! ?j)) else 0)
       = live_sum s
          + (if bit (m_LedgerMask (commit N s)) ?j
             then unat (m_NumAllocations (m_Ledger (commit N s) ! ?j)) else 0)"
    by (rule live_sum_change [OF j]) (simp add: commit_def)
  then show ?thesis
    using live j len add by (simp add: commit_def GetCurrentLedgeEntry_def)
qed

lemma commit_inv:
  assumes inv: "ring_inv s" and live: "bit (m_LedgerMask s) (unat (m_LedgerIndex s))"
    and bound: "unat (m_Tail s) + unat N < 2 ^ 64"
    and fits: "unat (m_Tail s) + unat N \<le> unat (m_Head s)"
  shows "ring_inv (commit N s)"
proof -
  have wf: "ring_wf s" using inv by (simp add: ring_inv_def)
  have j: "unat (m_LedgerIndex s) < cLedgerSize" and len: "length (m_Ledger s) = cLedgerSize"
    using wf by (simp_all add: ring_wf_def)
  have sum: "live_sum s + unat (m_Head s) = unat (m_Tail s) + unat (m_Size s)"
    using inv by (simp add: ring_inv_def)
  with fits have "live_sum s + unat N \<le> unat (m_Size s)" by linarith
  then have room: "live_sum s + unat N < 2 ^ 32"
    using unat_u32_lt [of "m_Size s"] by simp
  have T: "unat (m_Tail (commit N s)) = unat (m_Tail s) + unat N"
    by (simp add: commit_fields unat_tail_add [OF bound])
  have zero: "\<forall>i < cLedgerSize. \<not> bit (m_LedgerMask (commit N s)) i \<longrightarrow>
      m_FenceValue (m_Ledger (commit N s) ! i) = 0"
  proof (intro allI impI)
    fix i assume i: "i < cLedgerSize" "\<not> bit (m_LedgerMask (commit N s)) i"
    then have "i \<noteq> unat (m_LedgerIndex s)" using live by (auto simp: commit_fields)
    then have "m_Ledger (commit N s) ! i = m_Ledger s ! i" by (simp add: commit_def)
    with i inv show "m_FenceValue (m_Ledger (commit N s) ! i) = 0"
      by (simp add: ring_inv_def commit_fields)
  qed
  show ?thesis
    using inv fits sum zero commit_wf [OF wf]
    by (simp add: ring_inv_def T commit_live_sum [OF wf live room] commit_fields(1,2))
qed

lemma padded_tail_bound:
  assumes nz: "m_Size s \<noteq> 0" and small: "N < m_Size s div 2"
  shows "padded_tail N s + unat N \<le> unat (m_Tail s) + unat (m_Size s)"
proof -
  have "unat N < unat (m_Size s) div 2"
    using small by (simp add: word_less_nat_alt unat_div)
  moreover have "unat (m_Tail s) mod unat (m_Size s) + wrap_padding s = unat (m_Size s)"
    by (rule wrap_padding_bounds(3) [OF nz])
  ultimately show ?thesis
    by (auto simp: padded_tail_def request_wraps_def)
qed

lemma padded_tail_ge: "unat (m_Tail s) \<le> padded_tail N s"
  by (simp add: padded_tail_def)

lemma padded_tail_le:
  assumes "m_Size s \<noteq> 0"
  shows "padded_tail N s \<le> unat (m_Tail s) + unat (m_Size s)"
  using wrap_padding_bounds(2) [OF assms] by (simp add: padded_tail_def)

text \<open>The effect of a non-zero request on a buffer that satisfies the invariant.\<close>

lemma Allocate_effect:
  assumes inv: "ring_inv s" and N: "N \<noteq> 0" and f: "f \<noteq> 0"
    and bound: "unat (m_Tail s) + unat (m_Size s) + unat N < 2 ^ 64"
  obtains hr off s' where "Allocate N f out s = Some (hr, off, s')" and "ring_inv s'"
    and "m_Size s' = m_Size s" and "unat (m_Tail s) \<le> unat (m_Tail s')"
    and "unat (m_Tail s') \<le> padded_tail N s + unat N"
proof -
  let ?s1 = "snd (Allocate_ledger f s)"
  have wf: "ring_wf s" using inv by (simp add: ring_inv_def)
  have inv1: "ring_inv ?s1" by (rule Allocate_ledger_inv [OF inv])
  have wf1: "ring_wf ?s1" using inv1 by (simp add: ring_inv_def)
  have nz1: "m_Size ?s1 \<noteq> 0" using wf1 by (simp add: ring_wf_def)
  have nz: "m_Size s \<noteq> 0" using wf by (simp add: ring_wf_def)
  have same: "m_Tail ?s1 = m_Tail s" "m_Size ?s1 = m_Size s" "m_Head ?s1 = m_Head s"
    by (simp_all add: Allocate_ledger_fields)
  have pt: "padded_tail N ?s1 = padded_tail N s" "request_wraps N ?s1 = request_wraps N s"
    "wrap_padding ?s1 = wrap_padding s"
    by (simp_all add: padded_tail_def request_wraps_def wrap_padding_def same)
  note unfold = Allocate_nonzero [OF N wf, of f out]
  show thesis
  proof (cases "fst (Allocate_ledger f s) = E_FAIL")
    case True
    then have "Allocate N f out s = Some (E_FAIL, out, ?s1)" by (simp add: unfold)
    then show thesis
      using inv1 same padded_tail_ge [of s N] by (intro that [of E_FAIL out ?s1]) simp_all
  next
    case False
    then have ok: "fst (Allocate_ledger f s) = S_OK"
      using Allocate_ledger_cases [of f s] by simp
    have live1: "bit (m_LedgerMask ?s1) (unat (m_LedgerIndex ?s1))"
      by (rule Allocate_ledger_live [OF inv f ok])
    show thesis
    proof (cases "request_wraps N s")
      case nowrap: False
      then have eq: "Allocate N f out s = Allocate_commit N ?s1"
        using False by (simp add: unfold pt)
      have b1: "unat (m_Tail ?s1) + unat N < 2 ^ 64" using bound by (simp add: same)
      show thesis
      proof (cases "unat (m_Tail ?s1) + unat N \<le> unat (m_Head ?s1)")
        case True
        obtain off where off: "Allocate_commit N ?s1 = Some (S_OK, off, commit N ?s1)"
          using Allocate_commit_fits [OF nz1 b1 True] by blast
        have "ring_inv (commit N ?s1)" by (rule commit_inv [OF inv1 live1 b1 True])
        moreover have "unat (m_Tail (commit N ?s1)) = unat (m_Tail s) + unat N"
          using unat_tail_add [OF b1] by (simp add: commit_fields same)
        ultimately show thesis
          using eq off nowrap
          by (intro that [of S_OK off "commit N ?s1"])
             (simp_all add: commit_fields same padded_tail_def)
      next
        case False
        have "Allocate_commit N ?s1 = Some (E_FAIL, - 1, ?s1)"
          by (rule Allocate_commit_full [OF b1 False])
        then show thesis
          using eq inv1 same padded_tail_ge [of s N]
          by (intro that [of E_FAIL "- 1" ?s1]) simp_all
      qed
    next
      case wrap: True
      let ?r = "of_nat (wrap_padding ?s1) :: u32"
      have r: "unat ?r = wrap_padding s"
        using unat_of_nat_padding [OF nz1] by (simp add: pt)
      have rS: "wrap_padding s \<le> unat (m_Size s)" by (rule wrap_padding_bounds(2) [OF nz])
      have b1: "unat (m_Tail ?s1) + unat ?r < 2 ^ 64" using bound rS by (simp add: same r)
      have eq: "Allocate N f out s =
        (case Allocate_commit ?r ?s1 of None \<Rightarrow> None
         | Some (hr, dummy, s2) \<Rightarrow> if hr = E_FAIL then Some (E_FAIL, out, s2) else Allocate_commit N s2)"
        using False wrap by (simp add: unfold pt)
      have ptw: "padded_tail N s = unat (m_Tail s) + wrap_padding s"
        using wrap by (simp add: padded_tail_def)
      show thesis
      proof (cases "unat (m_Tail ?s1) + unat ?r \<le> unat (m_Head ?s1)")
        case padfail: False
        have "Allocate_commit ?r ?s1 = Some (E_FAIL, - 1, ?s1)"
          by (rule Allocate_commit_full [OF b1 padfail])
        then have "Allocate N f out s = Some (E_FAIL, out, ?s1)" by (simp add: eq)
        then show thesis
          using inv1 same padded_tail_ge [of s N]
          by (intro that [of E_FAIL out ?s1]) simp_all
      next
        case padok: True
        let ?s2 = "commit ?r ?s1"
        obtain d where d: "Allocate_commit ?r ?s1 = Some (S_OK, d, ?s2)"
          using Allocate_commit_fits [OF nz1 b1 padok] by blast
        have eq2: "Allocate N f out s = Allocate_commit N ?s2" by (simp add: eq d)
        have inv2: "ring_inv ?s2" by (rule commit_inv [OF inv1 live1 b1 padok])
        have nz2: "m_Size ?s2 \<noteq> 0" using nz1 by (simp add: commit_fields)
        have live2: "bit (m_LedgerMask ?s2) (unat (m_LedgerIndex ?s2))"
          using live1 by (simp add: commit_fields)
        have T2: "unat (m_Tail ?s2) = unat (m_Tail s) + wrap_padding s"
          using unat_tail_add [OF b1] by (simp add: commit_fields same r)
        have b2: "unat (m_Tail ?s2) + unat N < 2 ^ 64" using bound rS by (simp add: T2)
        show thesis
        proof (cases "unat (m_Tail ?s2) + unat N \<le> unat (m_Head ?s2)")
          case True
          obtain off where off: "Allocate_commit N ?s2 = Some (S_OK, off, commit N ?s2)"
            using Allocate_commit_fits [OF nz2 b2 True] by blast
          have "ring_inv (commit N ?s2)" by (rule commit_inv [OF inv2 live2 b2 True])
          moreover have "unat (m_Tail (commit N ?s2)) = unat (m_Tail s) + wrap_padding s + unat N"
            using unat_tail_add [OF b2] by (simp add: commit_fields(3) [of N ?s2] T2)
          ultimately show thesis
            using eq2 off
            by (intro that [of S_OK off "commit N ?s2"])
               (simp_all add: commit_fields(2) same ptw)
        next
          case False
          have "Allocate_commit N ?s2 = Some (E_FAIL, - 1, ?s2)"
            by (rule Allocate_commit_full [OF b2 False])
          then show thesis
            using eq2 inv2 T2
            by (intro that [of E_FAIL "- 1" ?s2]) (simp_all add: commit_fields(2) same ptw)
        qed
      qed
    qed
  qed
qed

lemma Deallocate_entry_skip:
  assumes "\<not> (bit (m_LedgerMask s) i \<and> m_FenceValue (m_Ledger s ! i) \<le> c)"
  shows "Deallocate_entry c i s = s"
  using assms by (auto simp: Deallocate_entry_def Let_def mask_test)

lemma Deallocate_entry_free:
  assumes "bit (m_LedgerMask s) i" and "m_FenceValue (m_Ledger s ! i) \<le> c"
  shows "Deallocate_entry c i s =
     s\<lparr>m_Head := m_Head s + ucast (m_NumAllocations (m_Ledger s ! i)),
       m_Ledger := (m_Ledger s)[i := \<lparr>m_FenceValue = 0, m_NumAllocations = 0\<rparr>],
       m_LedgerMask := m_LedgerMask s AND NOT (2 ^ i)\<rparr>"
  using assms by (simp add: Deallocate_entry_def Let_def mask_test)

lemma Deallocate_entry_inv:
  assumes inv: "ring_inv s" and i: "i < cLedgerSize"
    and bound: "unat (m_Tail s) + unat (m_Size s) < 2 ^ 64"
  shows "ring_inv (Deallocate_entry c i s)"
    and "m_Tail (Deallocate_entry c i s) = m_Tail s"
    and "m_Size (Deallocate_entry c i s) = m_Size s"
proof -
  let ?s' = "Deallocate_entry c i s"
  have all: "ring_inv ?s' \<and> m_Tail ?s' = m_Tail s \<and> m_Size ?s' = m_Size s"
  proof (cases "bit (m_LedgerMask s) i \<and> m_FenceValue (m_Ledger s ! i) \<le> c")
    case False
    then show ?thesis using inv by (simp add: Deallocate_entry_skip)
  next
    case True
    let ?n = "m_NumAllocations (m_Ledger s ! i)"
    have s': "?s' = s\<lparr>m_Head := m_Head s + ucast ?n,
         m_Ledger := (m_Ledger s)[i := \<lparr>m_FenceValue = 0, m_NumAllocations = 0\<rparr>],
         m_LedgerMask := m_LedgerMask s AND NOT (2 ^ i)\<rparr>"
      using True by (simp add: Deallocate_entry_free)
    have wf: "ring_wf s" and len: "length (m_Ledger s) = cLedgerSize"
      using inv by (simp_all add: ring_inv_def ring_wf_def)
    have sum: "live_sum s + unat (m_Head s) = unat (m_Tail s) + unat (m_Size s)"
      using inv by (simp add: ring_inv_def)
    have le: "unat ?n \<le> live_sum s"
      using True by (intro live_sum_ge [OF i]) simp
    have "unat (m_Head s) + unat ?n < 2 ^ 64"
      using le sum bound by linarith
    then have H: "unat (m_Head ?s') = unat (m_Head s) + unat ?n"
      by (simp add: s' unat_word_ariths unat_ucast_32_64)
    have "live_sum ?s' + (if bit (m_LedgerMask s) i then unat (m_NumAllocations (m_Ledger s ! i)) else 0)
        = live_sum s + (if bit (m_LedgerMask ?s') i then unat (m_NumAllocations (m_Ledger ?s' ! i)) else 0)"
      by (rule live_sum_change [OF i]) (simp add: s' mask_clear)
    then have L: "live_sum ?s' + unat ?n = live_sum s"
      using True by (simp add: s' mask_clear)
    have wf': "ring_wf ?s'"
      using wf by (simp add: s' ring_wf_def)
    have zero: "\<forall>k < cLedgerSize. \<not> bit (m_LedgerMask ?s') k \<longrightarrow>
        m_FenceValue (m_Ledger ?s' ! k) = 0"
    proof (intro allI impI)
      fix k assume k: "k < cLedgerSize" "\<not> bit (m_LedgerMask ?s') k"
      show "m_FenceValue (m_Ledger ?s' ! k) = 0"
      proof (cases "k = i")
        case True
        then show ?thesis using i len by (simp add: s')
      next
        case False
        with k have "\<not> bit (m_LedgerMask s) k" by (simp add: s' mask_clear)
        with k(1) inv False show ?thesis by (simp add: s' ring_inv_def)
      qed
    qed
    have T: "m_Tail ?s' = m_Tail s" "m_Size ?s' = m_Size s" by (simp_all add: s')
    have "unat (m_Tail ?s') \<le> unat (m_Head ?s')"
      using inv H by (simp add: T ring_inv_def)
    moreover have "unat (m_Head ?s') \<le> unat (m_Tail ?s') + unat (m_Size ?s')"
      using H le sum by (simp add: T)
    moreover have "live_sum ?s' + unat (m_Head ?s') = unat (m_Tail ?s') + unat (m_Size ?s')"
      using H L sum by (simp add: T)
    ultimately show ?thesis
      using wf' zero T unfolding ring_inv_def by blast
  qed
  from all show "ring_inv ?s'" "m_Tail ?s' = m_Tail s" "m_Size ?s' = m_Size s" by simp_all
qed

lemma Deallocate_loop_inv:
  assumes "ring_inv s" and "\<forall>i \<in> set is. i < cLedgerSize"
    and "unat (m_Tail s) + unat (m_Size s) < 2 ^ 64"
  shows "ring_inv (Deallocate_loop c is s) \<and> m_Tail (Deallocate_loop c is s) = m_Tail s
         \<and> m_Size (Deallocate_loop c is s) = m_Size s"
  using assms
proof (induction "is" arbitrary: s)
  case Nil
  then show ?case by simp
next
  case (Cons i "is")
  let ?s' = "Deallocate_entry c i s"
  from Cons.prems have i: "i < cLedgerSize" by simp
  note step = Deallocate_entry_inv [OF Cons.prems(1) i Cons.prems(3), of c]
  show ?case
  proof (cases "m_LedgerMask ?s' = 0")
    case True
    then show ?thesis using step by (simp add: Let_def)
  next
    case False
    have "ring_inv (Deallocate_loop c is ?s') \<and> m_Tail (Deallocate_loop c is ?s') = m_Tail ?s'
         \<and> m_Size (Deallocate_loop c is ?s') = m_Size ?s'"
      using Cons.prems step by (intro Cons.IH) simp_all
    then show ?thesis using False step by (simp add: Let_def)
  qed
qed

lemma Deallocate_inv:
  assumes "ring_inv s" and "unat (m_Tail s) + unat (m_Size s) < 2 ^ 64"
  shows "ring_inv (Deallocate c s)" and "m_Tail (Deallocate c s) = m_Tail s"
    and "m_Size (Deallocate c s) = m_Size s"
  using Deallocate_loop_inv [OF assms(1) _ assms(2), of "[0..<cLedgerSize]" c]
  by (simp_all add: Deallocate_def)

lemma new_live_sum: "live_sum (new_CFencedRingBuffer Size) = 0"
  by (auto simp: live_sum_def new_CFencedRingBuffer_def)

lemma new_ring_inv: "Size \<noteq> 0 \<Longrightarrow> ring_inv (new_CFencedRingBuffer Size)"
  unfolding ring_inv_def new_live_sum
  by (simp add: ring_wf_def new_CFencedRingBuffer_def unat_ucast_32_64) (simp add: cLedgerSize_def)

lemma ring_inv_claim:
  assumes "ring_inv s"
  shows "ring_claim s"
proof -
  from assms have "unat (m_Tail s) \<le> unat (m_Head s)"
    and "unat (m_Head s) \<le> unat (m_Tail s) + unat (m_Size s)"
    and "live_sum s + unat (m_Head s) = unat (m_Tail s) + unat (m_Size s)"
    by (simp_all add: ring_inv_def)
  then show ?thesis
    unfolding ring_claim_def occupancy_def logical_head_def uint_nat by linarith
qed

text \<open>One call keeps the invariant and moves the tail by at most the size.\<close>

lemma ring_step_inv:
  assumes inv: "ring_inv s" and small: "allocate_small (m_Size s) c" and fenced: "allocate_fenced c"
    and bound: "unat (m_Tail s) + 2 * unat (m_Size s) < 2 ^ 64"
  obtains s' where "ring_step c s = Some s'" and "ring_inv s'" and "m_Size s' = m_Size s"
    and "unat (m_Tail s') \<le> unat (m_Tail s) + unat (m_Size s)"
proof (cases c)
  case (Deallocate_call v)
  have b: "unat (m_Tail s) + unat (m_Size s) < 2 ^ 64" using bound by simp
  show thesis
    using Deallocate_inv [OF inv b, of v]
    by (intro that [of "Deallocate v s"]) (simp_all add: Deallocate_call)
next
  case (Allocate_call N f)
  have nz: "m_Size s \<noteq> 0" using inv by (simp add: ring_inv_def ring_wf_def)
  from small have N: "N < m_Size s div 2" by (simp add: Allocate_call)
  from fenced have f: "f \<noteq> 0" by (simp add: Allocate_call)
  show thesis
  proof (cases "N = 0")
    case True
    obtain t32 where "DereferenceTail s = Some t32"
      using DereferenceTail_Some [OF nz] by blast
    then have "ring_step c s = Some s"
      by (simp add: Allocate_call True Allocate_zero)
    then show thesis using inv by (intro that [of s]) simp_all
  next
    case False
    have "unat N < unat (m_Size s)"
      using N by (simp add: word_less_nat_alt unat_div)
    then have b: "unat (m_Tail s) + unat (m_Size s) + unat N < 2 ^ 64"
      using bound by simp
    obtain hr off s' where r: "Allocate N f 0 s = Some (hr, off, s')" "ring_inv s'"
      "m_Size s' = m_Size s" "unat (m_Tail s') \<le> padded_tail N s + unat N"
      using Allocate_effect [OF inv False f b, of 0] by blast
    have "unat (m_Tail s') \<le> unat (m_Tail s) + unat (m_Size s)"
      using r(4) padded_tail_bound [OF nz N] by linarith
    with r show thesis
      by (intro that [of s']) (simp_all add: Allocate_call)
  qed
qed

lemma ring_run_inv:
  assumes "ring_inv s" and "list_all (allocate_small (m_Size s)) cs" and "list_all allocate_fenced cs"
    and "unat (m_Tail s) + (length cs + 1) * unat (m_Size s) < 2 ^ 64"
  shows "\<exists>s'. ring_run cs s = Some s' \<and> ring_inv s'"
  using assms
proof (induction cs arbitrary: s)
  case Nil
  then show ?case by simp
next
  case (Cons c cs)
  have b: "unat (m_Tail s) + 2 * unat (m_Size s) < 2 ^ 64"
  proof -
    have "2 * unat (m_Size s) \<le> (length (c # cs) + 1) * unat (m_Size s)"
      by (intro mult_le_mono1) simp
    with Cons.prems(4) show ?thesis by linarith
  qed
  obtain s' where s': "ring_step c s = Some s'" "ring_inv s'" "m_Size s' = m_Size s"
      "unat (m_Tail s') \<le> unat (m_Tail s) + unat (m_Size s)"
    using ring_step_inv [OF Cons.prems(1) _ _ b, of c] Cons.prems(2,3) by auto
  have "unat (m_Tail s') + (length cs + 1) * unat (m_Size s') < 2 ^ 64"
    using s'(3,4) Cons.prems(4) by (simp add: algebra_simps)
  then have "\<exists>s''. ring_run cs s' = Some s'' \<and> ring_inv s''"
    using s' Cons.prems(2,3) by (intro Cons.IH) simp_all
  with s'(1) show ?case by simp
qed

lemma padded_tail_mod:
  assumes "m_Size s \<noteq> 0" and "request_wraps N s"
  shows "padded_tail N s mod unat (m_Size s) = 0"
proof -
  let ?S = "unat (m_Size s)" and ?T = "unat (m_Tail s)"
  have pos: "0 < ?S" using assms(1) by (simp add: unat_gt_0)
  have "?T mod ?S < ?S" by (rule mod_less_divisor [OF pos])
  then have "?T + (?S - ?T mod ?S) = (?T - ?T mod ?S) + ?S"
    using mod_less_eq_dividend [of ?T ?S] by linarith
  also have "\<dots> = ?S * (?T div ?S) + ?S"
    by (simp add: minus_mod_eq_mult_div)
  finally have "(?T + (?S - ?T mod ?S)) mod ?S = 0" by simp
  with assms(2) show ?thesis by (simp add: padded_tail_def wrap_padding_def)
qed

text \<open>The outcome of a non-zero request in terms of the padded tail.\<close>

lemma Allocate_outcome [consumes 3, case_names saturated full fits padded]:
  assumes wf: "ring_wf s" and N: "N \<noteq> 0"
    and bound: "unat (m_Tail s) + unat (m_Size s) + unat N < 2 ^ 64"
  obtains
    (saturated) "ledger_saturated f s"
      "Allocate N f out s = Some (E_FAIL, out, snd (Allocate_ledger f s))"
  | (full) off s' where "\<not> ledger_saturated f s" "no_contiguous_range N s"
      "Allocate N f out s = Some (E_FAIL, off, s')"
  | (fits) off where "\<not> ledger_saturated f s" "\<not> no_contiguous_range N s"
      "\<not> request_wraps N s"
      "Allocate N f out s = Some (S_OK, off, commit N (snd (Allocate_ledger f s)))"
      "unat off = unat (m_Tail s) mod unat (m_Size s)"
  | (padded) off where "\<not> ledger_saturated f s" "\<not> no_contiguous_range N s"
      "request_wraps N s"
      "Allocate N f out s = Some (S_OK, off,
          commit N (commit (of_nat (wrap_padding s)) (snd (Allocate_ledger f s))))"
      "unat off = padded_tail N s mod unat (m_Size s)"
proof -
  let ?s1 = "snd (Allocate_ledger f s)"
  have wf1: "ring_wf ?s1" by (rule Allocate_ledger_wf [OF wf])
  have nz1: "m_Size ?s1 \<noteq> 0" using wf1 by (simp add: ring_wf_def)
  have nz: "m_Size s \<noteq> 0" using wf by (simp add: ring_wf_def)
  have same: "m_Tail ?s1 = m_Tail s" "m_Size ?s1 = m_Size s" "m_Head ?s1 = m_Head s"
    by (simp_all add: Allocate_ledger_fields)
  have pt: "padded_tail N ?s1 = padded_tail N s" "request_wraps N ?s1 = request_wraps N s"
    "wrap_padding ?s1 = wrap_padding s"
    by (simp_all add: padded_tail_def request_wraps_def wrap_padding_def same)
  note unfold = Allocate_nonzero [OF N wf, of f out]
  show thesis
  proof (cases "ledger_saturated f s")
    case True
    then have "fst (Allocate_ledger f s) = E_FAIL" by (simp add: Allocate_ledger_fail_iff)
    then have "Allocate N f out s = Some (E_FAIL, out, ?s1)" by (simp add: unfold)
    with True show thesis by (rule saturated)
  next
    case nsat: False
    then have ok: "fst (Allocate_ledger f s) \<noteq> E_FAIL" by (simp add: Allocate_ledger_fail_iff)
    show thesis
    proof (cases "request_wraps N s")
      case nowrap: False
      then have eq: "Allocate N f out s = Allocate_commit N ?s1"
        using ok by (simp add: unfold pt)
      have b1: "unat (m_Tail ?s1) + unat N < 2 ^ 64" using bound by (simp add: same)
      have ncr: "no_contiguous_range N s = (\<not> unat (m_Tail ?s1) + unat N \<le> unat (m_Head ?s1))"
        using nowrap by (auto simp: no_contiguous_range_def padded_tail_def same)
      show thesis
      proof (cases "unat (m_Tail ?s1) + unat N \<le> unat (m_Head ?s1)")
        case True
        obtain off where off: "Allocate_commit N ?s1 = Some (S_OK, off, commit N ?s1)"
            "unat off = unat (m_Tail ?s1) mod unat (m_Size ?s1)"
          using Allocate_commit_fits [OF nz1 b1 True] by blast
        show thesis
          using nsat True nowrap off by (intro fits [of off]) (simp_all add: ncr eq same)
      next
        case False
        have "Allocate_commit N ?s1 = Some (E_FAIL, - 1, ?s1)"
          by (rule Allocate_commit_full [OF b1 False])
        then show thesis
          using nsat False by (intro full [of "- 1" ?s1]) (simp_all add: ncr eq)
      qed
    next
      case wrap: True
      let ?r = "of_nat (wrap_padding s) :: u32"
      have r: "unat ?r = wrap_padding s" by (rule unat_of_nat_padding [OF nz])
      have rS: "wrap_padding s \<le> unat (m_Size s)" by (rule wrap_padding_bounds(2) [OF nz])
      have b1: "unat (m_Tail ?s1) + unat ?r < 2 ^ 64" using bound rS by (simp add: same r)
      have eq: "Allocate N f out s =
        (case Allocate_commit ?r ?s1 of None \<Rightarrow> None
         | Some (hr, dummy, s2) \<Rightarrow> if hr = E_FAIL then Some (E_FAIL, out, s2) else Allocate_commit N s2)"
        using ok wrap by (simp add: unfold pt)
      have ptw: "padded_tail N s = unat (m_Tail s) + wrap_padding s"
        using wrap by (simp add: padded_tail_def)
      show thesis
      proof (cases "unat (m_Tail ?s1) + unat ?r \<le> unat (m_Head ?s1)")
        case padfail: False
        have "Allocate_commit ?r ?s1 = Some (E_FAIL, - 1, ?s1)"
          by (rule Allocate_commit_full [OF b1 padfail])
        then have "Allocate N f out s = Some (E_FAIL, out, ?s1)" by (simp add: eq)
        moreover have "no_contiguous_range N s"
          using padfail by (simp add: no_contiguous_range_def ptw same r)
        ultimately show thesis using nsat by (intro full [of out ?s1])
      next
        case padok: True
        let ?s2 = "commit ?r ?s1"
        obtain d where d: "Allocate_commit ?r ?s1 = Some (S_OK, d, ?s2)"
          using Allocate_commit_fits [OF nz1 b1 padok] by blast
        have eq2: "Allocate N f out s = Allocate_commit N ?s2" by (simp add: eq d)
        have nz2: "m_Size ?s2 \<noteq> 0" using nz1 by (simp add: commit_fields)
        have T2: "unat (m_Tail ?s2) = padded_tail N s"
          using unat_tail_add [OF b1] by (simp add: commit_fields same r ptw)
        have H2: "m_Head ?s2 = m_Head s" "m_Size ?s2 = m_Size s"
          by (simp_all add: commit_fields same)
        have b2: "unat (m_Tail ?s2) + unat N < 2 ^ 64" using bound rS by (simp add: T2 ptw)
        have ncr: "no_contiguous_range N s = (\<not> unat (m_Tail ?s2) + unat N \<le> unat (m_Head ?s2))"
          by (auto simp: no_contiguous_range_def T2 H2)
        show thesis
        proof (cases "unat (m_Tail ?s2) + unat N \<le> unat (m_Head ?s2)")
          case True
          obtain off where off: "Allocate_commit N ?s2 = Some (S_OK, off, commit N ?s2)"
              "unat off = unat (m_Tail ?s2) mod unat (m_Size ?s2)"
            using Allocate_commit_fits [OF nz2 b2 True] by blast
          have "\<not> no_contiguous_range N s" using True by (simp add: ncr)
          moreover have "Allocate N f out s = Some (S_OK, off, commit N ?s2)"
            by (simp add: eq2 off(1))
          moreover have "unat off = padded_tail N s mod unat (m_Size s)"
            by (simp add: off(2) T2 H2)
          ultimately show thesis using nsat wrap by (intro padded [of off])
        next
          case False
          have "Allocate_commit N ?s2 = Some (E_FAIL, - 1, ?s2)"
            by (rule Allocate_commit_full [OF b2 False])
          then show thesis
            using nsat False by (intro full [of "- 1" ?s2]) (simp_all add: ncr eq2)
        qed
      qed
    qed
  qed
qed

subsection \<open>The claims on the ring buffer\<close>

text \<open>
  C5, as amended. \<open>CFencedRingBuffer::Allocate\<close> never blocks: on a buffer of non-zero
  size it always returns. A request of \<open>NumItems = 0\<close> always succeeds, even when the
  ledger is saturated. A request of \<open>NumItems > 0\<close> returns the failure code exactly
  when either the ledger is saturated (the fence value is newer than the current ledger
  entry's and the next ledger slot, \<open>(index + 1) mod 16\<close>, is still marked in use) or,
  after any wrap padding, no contiguous range of \<open>NumItems\<close> slots exists (the padded
  tail plus \<open>NumItems\<close> exceeds \<^verbatim>\<open>m_Head\<close>, which is head + size); in all other
  cases it succeeds. The 64-bit tail counter is assumed not to be about to wrap around.
\<close>

theorem C5_Allocate_failure:
  assumes "ring_wf this"
    and "unat (m_Tail this) + unat (m_Size this) + unat NumItems < 2 ^ 64"
  shows "\<exists>hr off this'.
           Allocate NumItems CurrentFenceValue OffsetOut this = Some (hr, off, this')
           \<and> (hr = E_FAIL \<longleftrightarrow>
                NumItems \<noteq> 0
                \<and> (ledger_saturated CurrentFenceValue this \<or> no_contiguous_range NumItems this))
           \<and> (hr = S_OK \<longleftrightarrow>
                NumItems = 0
                \<or> \<not> (ledger_saturated CurrentFenceValue this \<or> no_contiguous_range NumItems this))"
proof (cases "NumItems = 0")
  case True
  have "m_Size this \<noteq> 0" using assms(1) by (simp add: ring_wf_def)
  then obtain t32 where "DereferenceTail this = Some t32"
    using DereferenceTail_Some by blast
  then show ?thesis by (simp add: True Allocate_zero)
next
  case False
  from assms(1) False assms(2) show ?thesis
    by (cases rule: Allocate_outcome [where f = CurrentFenceValue and out = OffsetOut])
       (simp_all add: False)
qed

theorem C5_Allocate_failure_witness:
  "ring_wf (new_CFencedRingBuffer 64)
   \<and> unat (m_Tail (new_CFencedRingBuffer 64)) + unat (m_Size (new_CFencedRingBuffer 64))
        + unat (1::u32) < 2 ^ 64
   \<and> (\<exists>hr off this'.
         Allocate 1 7 0 (new_CFencedRingBuffer 64) = Some (hr, off, this')
         \<and> (hr = E_FAIL \<longleftrightarrow>
              (1::u32) \<noteq> 0
              \<and> (ledger_saturated 7 (new_CFencedRingBuffer 64)
                  \<or> no_contiguous_range 1 (new_CFencedRingBuffer 64)))
         \<and> (hr = S_OK \<longleftrightarrow>
              (1::u32) = 0
              \<or> \<not> (ledger_saturated 7 (new_CFencedRingBuffer 64)
                     \<or> no_contiguous_range 1 (new_CFencedRingBuffer 64))))"
  using C5_Allocate_failure [of "new_CFencedRingBuffer 64" 1 7 0]
  by (simp add: ring_wf_def new_CFencedRingBuffer_def cLedgerSize_def)

text \<open>
  The claim as stated fails for a request of no items on a saturated ledger. After
  fifteen one-slot allocations with the fence values 1 to 15 on a buffer of size 64, the
  fence value 16 is newer than the current entry's and the next slot, slot 0, is still in
  use. \<open>Allocate(0, 16)\<close> returns \<open>S_OK\<close> there, by the fast path for
  \<open>NumItems == 0\<close>, while \<open>Allocate(1, 16)\<close> returns \<open>E_FAIL\<close>.
\<close>

theorem C5_Allocate_failure_counterexample:
  "list_all (allocate_small 64) saturating_calls
   \<and> (case ring_run saturating_calls (new_CFencedRingBuffer 64) of
         None \<Rightarrow> False
       | Some this \<Rightarrow>
           (0::u32) < m_Size this div 2
           \<and> ledger_saturated 16 this
           \<and> Allocate 0 16 0 this = Some (S_OK, 15, this)
           \<and> Allocate 1 16 0 this = Some (E_FAIL, 0, this\<lparr>m_LedgerIndex := 0\<rparr>))"
  by code_simp

text \<open>
  C6. Whenever \<open>CFencedRingBuffer::Allocate(NumItems, fence, out)\<close> succeeds with
  \<open>NumItems > 0\<close> (on a buffer of non-zero size whose 64-bit tail counter is not about
  to wrap around), the tail ends \<open>NumItems\<close> after the padded tail, and the offset
  written to \<open>out\<close> is the tail modulo the size as it stood immediately before the tail
  was advanced for this allocation: it is the start of the newly allocated range, not its
  end, and with \<open>NumItems < size / 2\<close> the range lies inside the buffer. When the
  request does not wrap the offset is the old tail modulo the size and the current ledger
  entry grows by \<open>NumItems\<close>. When the request wraps
  (\<open>tail mod size + NumItems > size\<close>) the padding is added to the current ledger entry's
  \<^verbatim>\<open>m_NumAllocations\<close> as well and the returned offset is 0.
\<close>

theorem C6_Allocate_offset:
  assumes "ring_wf this" and "NumItems \<noteq> 0"
    and "unat (m_Tail this) + unat (m_Size this) + unat NumItems < 2 ^ 64"
    and "Allocate NumItems CurrentFenceValue OffsetOut this = Some (S_OK, off, this')"
  shows "unat (m_Tail this') = padded_tail NumItems this + unat NumItems
         \<and> unat off = (unat (m_Tail this') - unat NumItems) mod unat (m_Size this)
         \<and> (NumItems < m_Size this div 2 \<longrightarrow> unat off + unat NumItems \<le> unat (m_Size this))
         \<and> (\<not> request_wraps NumItems this \<longrightarrow>
               unat off = unat (m_Tail this) mod unat (m_Size this)
               \<and> m_NumAllocations (GetCurrentLedgeEntry this')
                   = m_NumAllocations (GetCurrentLedgeEntry (snd (Allocate_ledger CurrentFenceValue this)))
                     + NumItems)
         \<and> (request_wraps NumItems this \<longrightarrow>
               off = 0
               \<and> m_NumAllocations (GetCurrentLedgeEntry this')
                   = m_NumAllocations (GetCurrentLedgeEntry (snd (Allocate_ledger CurrentFenceValue this)))
                     + of_nat (wrap_padding this) + NumItems)"
proof -
  let ?s1 = "snd (Allocate_ledger CurrentFenceValue this)"
  have nz: "m_Size this \<noteq> 0" using assms(1) by (simp add: ring_wf_def)
  have wf1: "ring_wf ?s1" by (rule Allocate_ledger_wf [OF assms(1)])
  then have idx1: "unat (m_LedgerIndex ?s1) < length (m_Ledger ?s1)"
    by (simp add: ring_wf_def)
  have same: "m_Tail ?s1 = m_Tail this" "m_Size ?s1 = m_Size this"
    by (simp_all add: Allocate_ledger_fields)
  have small: "unat NumItems < unat (m_Size this)" if "NumItems < m_Size this div 2"
    using that by (simp add: word_less_nat_alt unat_div)
  have rS: "wrap_padding this \<le> unat (m_Size this)" by (rule wrap_padding_bounds(2) [OF nz])
  from assms(1,2,3) show ?thesis
  proof (cases rule: Allocate_outcome [where f = CurrentFenceValue and out = OffsetOut])
    case saturated
    with assms(4) show ?thesis by simp
  next
    case (full off' s')
    with assms(4) show ?thesis by simp
  next
    case (fits off')
    with assms(4) have eq: "off = off'" "this' = commit NumItems ?s1" by simp_all
    have b: "unat (m_Tail ?s1) + unat NumItems < 2 ^ 64" using assms(3) by (simp add: same)
    have T': "unat (m_Tail this') = unat (m_Tail this) + unat NumItems"
      using unat_tail_add [OF b] by (simp add: eq commit_fields same)
    have "unat off + unat NumItems \<le> unat (m_Size this)"
      using fits(3,5) by (simp add: eq request_wraps_def)
    then show ?thesis
      using fits(3,5) T' commit_entry(1) [OF idx1, of NumItems]
      by (simp add: eq(1) padded_tail_def) (simp add: eq(2))
  next
    case (padded off')
    let ?r = "of_nat (wrap_padding this) :: u32"
    let ?s2 = "commit ?r ?s1"
    from padded assms(4) have eq: "off = off'" "this' = commit NumItems ?s2" by simp_all
    have r: "unat ?r = wrap_padding this" by (rule unat_of_nat_padding [OF nz])
    have b1: "unat (m_Tail ?s1) + unat ?r < 2 ^ 64" using assms(3) rS by (simp add: same r)
    have T2: "unat (m_Tail ?s2) = padded_tail NumItems this"
      using unat_tail_add [OF b1] padded(3) by (simp add: commit_fields same r padded_tail_def)
    have b2: "unat (m_Tail ?s2) + unat NumItems < 2 ^ 64"
      using assms(3) rS padded(3) by (simp add: T2 padded_tail_def)
    have T': "unat (m_Tail this') = padded_tail NumItems this + unat NumItems"
      using unat_tail_add [OF b2] by (simp add: eq commit_fields(3) [of NumItems ?s2] T2)
    have off0: "unat off = 0"
      using padded(5) padded_tail_mod [OF nz padded(3)] by (simp add: eq)
    then have "off = 0" by (simp add: unat_eq_0)
    have idx2: "unat (m_LedgerIndex ?s2) < length (m_Ledger ?s2)"
      using idx1 by (simp add: commit_fields)
    have "m_NumAllocations (GetCurrentLedgeEntry this')
        = m_NumAllocations (GetCurrentLedgeEntry ?s1) + ?r + NumItems"
      by (simp add: eq(2) commit_entry(1) [OF idx2] commit_entry(1) [OF idx1])
    then show ?thesis
      using padded(3) T' off0 \<open>off = 0\<close> small padded_tail_mod [OF nz padded(3)]
      by auto
  qed
qed

text \<open>
  A witness at the wrap boundary: on a buffer of size 2048, two allocations of 700 slots
  with fence value 1 and their release leave the tail at 1400. A request of 700 slots
  with fence value 2 wraps: 648 slots are padded, the offset is 0, the tail ends at
  2748 and the ledger entry of fence 2 counts 1348 slots.
\<close>

theorem C6_Allocate_offset_witness:
  "(let this = Deallocate 1 (commit 700 (commit 700
                 (snd (Allocate_ledger 1 (new_CFencedRingBuffer 2048)))));
        this' = commit 700 (commit 648 (snd (Allocate_ledger 2 this)))
    in ring_run [Allocate_call 700 1, Allocate_call 700 1, Deallocate_call 1]
         (new_CFencedRingBuffer 2048) = Some this
       \<and> ring_wf this \<and> (700::u32) \<noteq> 0
       \<and> unat (m_Tail this) + unat (m_Size this) + unat (700::u32) < 2 ^ 64
       \<and> Allocate 700 2 0 this = Some (S_OK, 0, this')
       \<and> (700::u32) < m_Size this div 2
       \<and> request_wraps 700 this
       \<and> wrap_padding this = 648
       \<and> m_Tail this = 1400
       \<and> m_Tail this' = 2748
       \<and> m_NumAllocations (GetCurrentLedgeEntry (snd (Allocate_ledger 2 this))) = 0
       \<and> m_NumAllocations (GetCurrentLedgeEntry this') = 1348
       \<and> unat (m_Tail this') = padded_tail 700 this + unat (700::u32)
       \<and> unat (0::u32) = (unat (m_Tail this') - unat (700::u32)) mod unat (m_Size this)
       \<and> unat (0::u32) + unat (700::u32) \<le> unat (m_Size this))"
proof -
  let ?s = "Deallocate 1 (commit 700 (commit 700
                 (snd (Allocate_ledger 1 (new_CFencedRingBuffer 2048)))))"
  let ?s' = "commit 700 (commit 648 (snd (Allocate_ledger 2 ?s)))"
  have run: "ring_run [Allocate_call 700 1, Allocate_call 700 1, Deallocate_call 1]
         (new_CFencedRingBuffer 2048) = Some ?s" by code_simp
  have wf: "ring_wf ?s" by code_simp
  have n: "(700::u32) \<noteq> 0" by simp
  have T: "m_Tail ?s = 1400" "m_Size ?s = 2048" by code_simp+
  have b: "unat (m_Tail ?s) + unat (m_Size ?s) + unat (700::u32) < 2 ^ 64"
    by (simp add: T)
  have ok: "Allocate 700 2 0 ?s = Some (S_OK, 0, ?s')" by code_simp
  have sm: "(700::u32) < m_Size ?s div 2" by (simp add: T)
  have w: "request_wraps 700 ?s" "wrap_padding ?s = 648" by code_simp+
  have v: "m_Tail ?s' = 2748" "m_NumAllocations (GetCurrentLedgeEntry ?s') = 1348"
    "m_NumAllocations (GetCurrentLedgeEntry (snd (Allocate_ledger 2 ?s))) = 0" by code_simp+
  from C6_Allocate_offset [OF wf n b ok] run wf n b ok sm w T(1) v show ?thesis
    unfolding Let_def by blast
qed

text \<open>
  C1, as amended. For every state of \<open>CFencedRingBuffer\<close> reachable from construction
  with a positive size by any sequence of \<open>Allocate\<close> and \<open>Deallocate\<close> calls in which
  every \<open>Allocate\<close> requests \<open>NumItems < size / 2\<close> with a fence value other than 0
  (and which is too short for the 64-bit counters to wrap around):
  \<open>0 \<le> tail - head \<le> size\<close>, and the sum of \<^verbatim>\<open>m_NumAllocations\<close> over the ledger
  slots whose bit is set in the ledger mask equals \<open>tail - head\<close>, where the logical head
  is \<^verbatim>\<open>m_Head\<close> minus the size.
\<close>

theorem C1_ring_invariant:
  assumes "Size \<noteq> 0" and "list_all (allocate_small Size) calls"
    and "list_all allocate_fenced calls"
    and "(length calls + 1) * unat Size < 2 ^ 64"
  shows "\<exists>this. ring_run calls (new_CFencedRingBuffer Size) = Some this \<and> ring_claim this"
proof -
  let ?s = "new_CFencedRingBuffer Size"
  have "m_Size ?s = Size" "m_Tail ?s = 0" by (simp_all add: new_CFencedRingBuffer_def)
  then have "\<exists>this. ring_run calls ?s = Some this \<and> ring_inv this"
    using assms by (intro ring_run_inv new_ring_inv) simp_all
  then show ?thesis using ring_inv_claim by blast
qed

theorem C1_ring_invariant_witness:
  "(4::u32) \<noteq> 0
   \<and> list_all (allocate_small 4) [Allocate_call 1 1, Deallocate_call 1, Allocate_call 1 2]
   \<and> list_all allocate_fenced [Allocate_call 1 1, Deallocate_call 1, Allocate_call 1 2]
   \<and> (\<exists>this. ring_run [Allocate_call 1 1, Deallocate_call 1, Allocate_call 1 2]
                 (new_CFencedRingBuffer 4) = Some this \<and> ring_claim this)"
  using C1_ring_invariant [of 4 "[Allocate_call 1 1, Deallocate_call 1, Allocate_call 1 2]"]
  by simp

text \<open>
  The claim as stated fails when the fence value 0 is used. On a buffer of size 4,
  \<open>Allocate(1, 0)\<close> records the slot in ledger entry 0, whose fence value is 0;
  \<open>Deallocate(0)\<close> releases it and clears the bit of entry 0; the next \<open>Allocate(1, 0)\<close>
  does not move to another ledger entry, since 0 is not newer than the entry's fence
  value 0, and counts the slot in entry 0 although its bit is clear. Then
  \<open>tail - head = 1\<close> while the sum over the slots in use is 0.
\<close>

theorem C1_ring_invariant_counterexample:
  "(4::u32) \<noteq> 0
   \<and> list_all (allocate_small 4) [Allocate_call 1 0, Deallocate_call 0, Allocate_call 1 0]
   \<and> (case ring_run [Allocate_call 1 0, Deallocate_call 0, Allocate_call 1 0]
               (new_CFencedRingBuffer 4) of
         None \<Rightarrow> False
       | Some this \<Rightarrow> m_Head this = 5 \<and> m_Tail this = 2 \<and> m_LedgerMask this = 0
                      \<and> occupancy this = 1 \<and> live_sum this = 0 \<and> \<not> ring_claim this)"
  by code_simp

section \<open>Properties of the descriptor heap manager\<close>

lemma in_ranges_Nil [simp]: "\<not> in_ranges x []"
  by (simp add: in_ranges_def)

lemma in_ranges_Cons:
  "in_ranges x (r # rs) = ((unat (Start r) \<le> x \<and> x < unat (End r)) \<or> in_ranges x rs)"
  by (auto simp: in_ranges_def)

lemma in_ranges_append:
  "in_ranges x (rs @ rs') = (in_ranges x rs \<or> in_ranges x rs')"
  by (auto simp: in_ranges_def)

lemma ranges_from_weaken:
  "ranges_from lo lim b d rs \<Longrightarrow> lo' \<le> lo \<Longrightarrow> ranges_from lo' lim b d rs"
  by (cases rs) auto

lemma ranges_from_raise:
  "ranges_from lo lim b d rs \<Longrightarrow> \<forall>r \<in> set rs. lo' \<le> unat (Start r) \<Longrightarrow> ranges_from lo' lim b d rs"
  by (cases rs) auto

lemma ranges_from_Start:
  "ranges_from lo lim b d rs \<Longrightarrow> r \<in> set rs \<Longrightarrow> lo \<le> unat (Start r) \<and> unat (Start r) < unat (End r)"
proof (induction rs arbitrary: lo)
  case Nil
  then show ?case by simp
next
  case (Cons a rs)
  show ?case
  proof (cases "r = a")
    case True
    with Cons.prems show ?thesis by simp
  next
    case False
    with Cons.prems have "r \<in> set rs" "ranges_from (unat (End a)) lim b d rs" by simp_all
    then have "unat (End a) \<le> unat (Start r) \<and> unat (Start r) < unat (End r)"
      by (rule Cons.IH [rotated])
    with Cons.prems show ?thesis by simp
  qed
qed

lemma ranges_from_not_in:
  "ranges_from lo lim b d rs \<Longrightarrow> x < lo \<Longrightarrow> \<not> in_ranges x rs"
  using ranges_from_Start [of lo lim b d rs] by (fastforce simp: in_ranges_def)

lemma ranges_from_sorted:
  "ranges_from lo lim b d rs \<Longrightarrow>
     sorted_wrt (\<lambda>r r'. End r \<le> Start r') rs \<and> sorted_wrt (\<lambda>r r'. Start r < Start r') rs"
proof (induction rs arbitrary: lo)
  case Nil
  then show ?case by simp
next
  case (Cons a rs)
  then have tail: "ranges_from (unat (End a)) lim b d rs" and a: "unat (Start a) < unat (End a)"
    by simp_all
  have "\<forall>r \<in> set rs. unat (End a) \<le> unat (Start r)"
    using ranges_from_Start [OF tail] by blast
  then have "\<forall>r \<in> set rs. End a \<le> Start r \<and> Start a < Start r"
    using a by (auto simp: word_le_nat_alt word_less_nat_alt)
  with Cons.IH [OF tail] show ?case by simp
qed

lemma ranges_from_snoc:
  assumes "ranges_from lo lim b d rs" and "\<forall>r \<in> set rs. unat (End r) \<le> unat (Start n)"
    and "lo \<le> unat (Start n)" and "unat (Start n) < unat (End n)" and "unat (End n) \<le> lim"
    and "d dvd (unat (Start n) - b)" and "d dvd (unat (End n) - b)"
  shows "ranges_from lo lim b d (rs @ [n])"
  using assms by (induction rs arbitrary: lo) auto

lemma aligned_gap:
  fixes x y b d :: nat
  assumes "d dvd (x - b)" and "d dvd (y - b)" and "b \<le> x" and "x < y"
  shows "x + d \<le> y"
proof -
  have "d dvd (y - b) - (x - b)" using assms(1,2) by (rule dvd_diff_nat [rotated])
  moreover have "(y - b) - (x - b) = y - x" using assms(3,4) by simp
  ultimately have "d dvd (y - x)" by simp
  moreover have "0 < y - x" using assms(4) by simp
  ultimately have "d \<le> y - x" by (rule dvd_imp_le)
  then show ?thesis using assms(4) by simp
qed

lemma aligned_add:
  fixes x b d :: nat
  assumes "d dvd (x - b)" and "b \<le> x"
  shows "d dvd (x + d - b)"
proof -
  have "x + d - b = (x - b) + d" using assms(2) by simp
  then show ?thesis using assms(1) by simp
qed

lemma unat_offset_add:
  fixes h :: u64 and DS :: u32
  assumes "unat h + unat DS < 2 ^ 64"
  shows "unat (h + ucast DS) = unat h + unat DS"
  using assms by (simp add: unat_word_ariths unat_ucast_32_64)

lemma ranges_from_aligned:
  "ranges_from lo lim b d rs \<Longrightarrow> r \<in> set rs \<Longrightarrow>
     d dvd (unat (Start r) - b) \<and> d dvd (unat (End r) - b) \<and> unat (End r) \<le> lim"
  by (induction rs arbitrary: lo) auto

text \<open>The loop of \<open>FreeHeapSlot\<close> on the free list of a page that satisfies the invariant.\<close>

lemma FreeList_walk_inv:
  fixes h :: u64 and DS :: u32
  assumes R: "ranges_from lo lim b (unat DS) rs"
    and d0: "0 < unat DS" and blo: "b \<le> lo" and loh: "lo \<le> unat h" and hlim: "unat h < lim"
    and ha: "unat DS dvd (unat h - b)" and la: "unat DS dvd (lim - b)" and lim: "lim < 2 ^ 64"
    and notin: "\<not> in_ranges (unat h) rs"
  shows "(\<forall>rs'. FreeList_walk h DS oom rs = Found rs' \<longrightarrow>
            ranges_from lo lim b (unat DS) rs'
            \<and> (\<forall>x. in_ranges x rs' \<longleftrightarrow> in_ranges x rs \<or> (unat h \<le> x \<and> x < unat h + unat DS)))
       \<and> (FreeList_walk h DS oom rs = NotFound \<longrightarrow> (\<forall>r \<in> set rs. unat (End r) \<le> unat h))"
  using R blo loh notin
proof (induction rs arbitrary: lo)
  case Nil
  then show ?case by simp
next
  case (Cons r rest)
  let ?d = "unat DS" and ?H = "unat h" and ?S = "unat (Start r)" and ?E = "unat (End r)"
  have b_le_h: "b \<le> ?H" using Cons.prems(2,3) by simp
  have hd_le: "?H + ?d \<le> lim" by (rule aligned_gap [OF ha la b_le_h hlim])
  then have add: "unat (h + ucast DS) = ?H + ?d"
    using lim by (intro unat_offset_add) simp
  from Cons.prems(1) have r: "lo \<le> ?S" "?S < ?E" "?E \<le> lim" "?d dvd (?S - b)" "?d dvd (?E - b)"
    and R': "ranges_from ?E lim b ?d rest"
    by simp_all
  from Cons.prems(4) have nr: "\<not> (?S \<le> ?H \<and> ?H < ?E)" and nrest: "\<not> in_ranges ?H rest"
    by (simp_all add: in_ranges_Cons)
  have new_ok: "?H < ?H + ?d" "?d dvd (?H + ?d - b)"
    using d0 aligned_add [OF ha b_le_h] by simp_all
  consider (left) "Start r = h + ucast DS"
    | (right) "Start r \<noteq> h + ucast DS" "End r = h"
    | (before) "Start r \<noteq> h + ucast DS" "End r \<noteq> h" "Start r > h"
    | (after) "Start r \<noteq> h + ucast DS" "End r \<noteq> h" "\<not> Start r > h"
    by blast
  then show ?case
  proof cases
    case left
    then have S: "?S = ?H + ?d" using add by simp
    have "ranges_from lo lim b ?d (r\<lparr>Start := h\<rparr> # rest)"
      using r R' S Cons.prems(3) ha d0 by simp
    moreover have "in_ranges x (r\<lparr>Start := h\<rparr> # rest)
        \<longleftrightarrow> in_ranges x (r # rest) \<or> (?H \<le> x \<and> x < ?H + ?d)" for x
      using S r(2) by (auto simp: in_ranges_Cons)
    ultimately show ?thesis using left by simp
  next
    case right
    then have E: "?E = ?H" by simp
    have E': "unat (End r + ucast DS) = ?H + ?d"
      using right(2) add by simp
    have "\<forall>r2 \<in> set rest. ?H + ?d \<le> unat (Start r2)"
    proof
      fix r2 assume r2: "r2 \<in> set rest"
      have s2: "?E \<le> unat (Start r2)" "unat (Start r2) < unat (End r2)"
        using ranges_from_Start [OF R' r2] by simp_all
      have "unat (Start r2) \<noteq> ?H"
        using nrest r2 s2(2) by (auto simp: in_ranges_def)
      with s2(1) E have "?H < unat (Start r2)" by simp
      moreover have "?d dvd (unat (Start r2) - b)"
        using ranges_from_aligned [OF R' r2] by simp
      ultimately show "?H + ?d \<le> unat (Start r2)"
        by (intro aligned_gap [OF ha _ b_le_h])
    qed
    then have "ranges_from (?H + ?d) lim b ?d rest"
      by (rule ranges_from_raise [OF R'])
    then have "ranges_from lo lim b ?d (r\<lparr>End := End r + ucast DS\<rparr> # rest)"
      using r E E' hd_le new_ok by simp
    moreover have "in_ranges x (r\<lparr>End := End r + ucast DS\<rparr> # rest)
        \<longleftrightarrow> in_ranges x (r # rest) \<or> (?H \<le> x \<and> x < ?H + ?d)" for x
      using E E' r(2) by (auto simp: in_ranges_Cons)
    ultimately show ?thesis using right by simp
  next
    case before
    then have "?H < ?S" by (simp add: word_less_nat_alt)
    then have "?H + ?d \<le> ?S" by (intro aligned_gap [OF ha r(4) b_le_h])
    then have "ranges_from (?H + ?d) lim b ?d (r # rest)"
      using r R' by simp
    then have "ranges_from lo lim b ?d (\<lparr>Start = h, End = h + ucast DS\<rparr> # r # rest)"
      using add Cons.prems(3) hd_le new_ok ha by simp
    moreover have "in_ranges x (\<lparr>Start = h, End = h + ucast DS\<rparr> # r # rest)
        \<longleftrightarrow> in_ranges x (r # rest) \<or> (?H \<le> x \<and> x < ?H + ?d)" for x
      using add by (auto simp: in_ranges_Cons)
    ultimately show ?thesis using before by simp
  next
    case after
    then have "?S \<le> ?H" by (simp add: word_less_nat_alt not_less)
    with nr have "?E \<le> ?H" by simp
    have IH: "(\<forall>rs'. FreeList_walk h DS oom rest = Found rs' \<longrightarrow>
            ranges_from ?E lim b ?d rs'
            \<and> (\<forall>x. in_ranges x rs' \<longleftrightarrow> in_ranges x rest \<or> (?H \<le> x \<and> x < ?H + ?d)))
       \<and> (FreeList_walk h DS oom rest = NotFound \<longrightarrow> (\<forall>r \<in> set rest. unat (End r) \<le> ?H))"
      using r Cons.prems(2) \<open>?E \<le> ?H\<close> nrest by (intro Cons.IH [OF R']) simp_all
    show ?thesis
    proof (cases "FreeList_walk h DS oom rest")
      case (Found rest')
      with IH have "ranges_from ?E lim b ?d rest'"
        and "\<And>x. in_ranges x rest' \<longleftrightarrow> in_ranges x rest \<or> (?H \<le> x \<and> x < ?H + ?d)"
        by simp_all
      then show ?thesis
        using after Found r by (auto simp: in_ranges_Cons)
    next
      case NotFound
      with IH have "\<forall>r \<in> set rest. unat (End r) \<le> ?H" by simp
      then show ?thesis using after NotFound \<open>?E \<le> ?H\<close> by simp
    next
      case Threw
      then show ?thesis using after by simp
    qed
  qed
qed

lemma aligned_same:
  fixes x y b d :: nat
  assumes "d dvd (x - b)" and "d dvd (y - b)" and "b \<le> x" and "b \<le> y"
    and "x \<le> y" and "y < x + d"
  shows "y = x"
proof (rule ccontr)
  assume "y \<noteq> x"
  with assms(5) have "x < y" by simp
  then have "x + d \<le> y" by (rule aligned_gap [OF assms(1,2,3)])
  with assms(6) show False by simp
qed

lemma page_inv_subset:
  "page_inv d sz hs page \<Longrightarrow> hs' \<subseteq> hs \<Longrightarrow> page_inv d sz hs' page"
  by (auto simp: page_inv_def Let_def)

text \<open>Freeing an outstanding handle of a page.\<close>

lemma page_inv_free:
  fixes h :: u64 and DS :: u32 and N :: u32
  assumes inv: "page_inv (unat DS) (unat N * unat DS) hs page" and d0: "0 < unat DS"
    and h: "h \<in> hs"
  shows "FreeList_walk h DS oom (m_FreeList page) = Found fl' \<Longrightarrow>
           page_inv (unat DS) (unat N * unat DS) (hs - {h}) (page\<lparr>m_FreeList := fl'\<rparr>)"
    and "FreeList_walk h DS oom (m_FreeList page) = NotFound \<Longrightarrow>
           page_inv (unat DS) (unat N * unat DS) (hs - {h})
             (page\<lparr>m_FreeList := m_FreeList page @ [\<lparr>Start = h, End = h + ucast DS\<rparr>]\<rparr>)"
proof -
  let ?d = "unat DS" and ?b = "unat (m_Heap page)" and ?H = "unat h"
  let ?lim = "?b + unat N * ?d" and ?fl = "m_FreeList page"
  from inv have lim: "?lim < 2 ^ 64" and R: "ranges_from ?b ?lim ?b ?d ?fl"
    and hs: "\<And>k. k \<in> hs \<Longrightarrow> ?b \<le> unat k \<and> unat k < ?lim \<and> ?d dvd (unat k - ?b)
                  \<and> \<not> in_ranges (unat k) ?fl"
    by (simp_all add: page_inv_def Let_def)
  from hs [OF h] have hh: "?b \<le> ?H" "?H < ?lim" "?d dvd (?H - ?b)" "\<not> in_ranges ?H ?fl"
    by simp_all
  have la: "?d dvd (?lim - ?b)" by simp
  note walk = FreeList_walk_inv [OF R d0 order_refl hh(1,2,3) la lim hh(4), of oom]
  have hd_le: "?H + ?d \<le> ?lim" by (rule aligned_gap [OF hh(3) la hh(1,2)])
  then have add: "unat (h + ucast DS) = ?H + ?d"
    using lim by (intro unat_offset_add) simp
  have others: "\<not> (?H \<le> unat k \<and> unat k < ?H + ?d)" if "k \<in> hs - {h}" for k
  proof
    assume a: "?H \<le> unat k \<and> unat k < ?H + ?d"
    from that hs [of k] have k: "?b \<le> unat k" "?d dvd (unat k - ?b)" by simp_all
    have "unat k = ?H"
      using a by (intro aligned_same [OF hh(3) k(2) hh(1) k(1)]) simp_all
    then have "k = h" by (simp add: word_unat_eq_iff)
    with that show False by simp
  qed
  show "page_inv ?d (unat N * ?d) (hs - {h}) (page\<lparr>m_FreeList := fl'\<rparr>)"
    if "FreeList_walk h DS oom ?fl = Found fl'"
  proof -
    from walk that have R': "ranges_from ?b ?lim ?b ?d fl'"
      and cover: "\<And>x. in_ranges x fl' \<longleftrightarrow> in_ranges x ?fl \<or> (?H \<le> x \<and> x < ?H + ?d)"
      by simp_all
    show ?thesis
      using lim R' hs others by (auto simp: page_inv_def Let_def cover)
  qed
  show "page_inv ?d (unat N * ?d) (hs - {h})
          (page\<lparr>m_FreeList := ?fl @ [\<lparr>Start = h, End = h + ucast DS\<rparr>]\<rparr>)"
    if "FreeList_walk h DS oom ?fl = NotFound"
  proof -
    from walk that have ends: "\<forall>r \<in> set ?fl. unat (End r) \<le> ?H" by simp
    have R': "ranges_from ?b ?lim ?b ?d (?fl @ [\<lparr>Start = h, End = h + ucast DS\<rparr>])"
      using ends hh d0 hd_le aligned_add [OF hh(3,1)]
      by (intro ranges_from_snoc [OF R]) (simp_all add: add)
    show ?thesis
      using lim R' hs others by (auto simp: page_inv_def Let_def in_ranges_append in_ranges_Cons add)
  qed
qed

text \<open>Taking the first slot of the first free range of a page.\<close>

lemma page_inv_take:
  fixes DS :: u32 and N :: u32
  assumes inv: "page_inv (unat DS) (unat N * unat DS) hs page" and d0: "0 < unat DS"
    and fl: "m_FreeList page = r # rest"
  shows "unat (Start r + ucast DS) = unat (Start r) + unat DS"
    and "Start r + ucast DS = End r \<Longrightarrow>
           page_inv (unat DS) (unat N * unat DS) (insert (Start r) hs) (page\<lparr>m_FreeList := rest\<rparr>)"
    and "Start r + ucast DS \<noteq> End r \<Longrightarrow>
           page_inv (unat DS) (unat N * unat DS) (insert (Start r) hs)
             (page\<lparr>m_FreeList := r\<lparr>Start := Start r + ucast DS\<rparr> # rest\<rparr>)"
proof -
  let ?d = "unat DS" and ?b = "unat (m_Heap page)" and ?S = "unat (Start r)" and ?E = "unat (End r)"
  let ?lim = "?b + unat N * ?d"
  from inv fl have lim: "?lim < 2 ^ 64"
    and r: "?b \<le> ?S" "?S < ?E" "?E \<le> ?lim" "?d dvd (?S - ?b)" "?d dvd (?E - ?b)"
    and R': "ranges_from ?E ?lim ?b ?d rest"
    and hs: "\<And>k. k \<in> hs \<Longrightarrow> ?b \<le> unat k \<and> unat k < ?lim \<and> ?d dvd (unat k - ?b)
                  \<and> \<not> in_ranges (unat k) (r # rest)"
    by (simp_all add: page_inv_def Let_def)
  have gap: "?S + ?d \<le> ?E" by (rule aligned_gap [OF r(4,5,1,2)])
  then show add: "unat (Start r + ucast DS) = ?S + ?d"
    using r(3) lim by (intro unat_offset_add) simp
  have self: "\<not> in_ranges ?S rest"
    by (rule ranges_from_not_in [OF R' r(2)])
  show "page_inv ?d (unat N * ?d) (insert (Start r) hs) (page\<lparr>m_FreeList := rest\<rparr>)"
    if "Start r + ucast DS = End r"
    using lim r hs self ranges_from_weaken [OF R', of ?b]
    by (auto simp: page_inv_def Let_def in_ranges_Cons)
  show "page_inv ?d (unat N * ?d) (insert (Start r) hs)
          (page\<lparr>m_FreeList := r\<lparr>Start := Start r + ucast DS\<rparr> # rest\<rparr>)"
    if ne: "Start r + ucast DS \<noteq> End r"
  proof -
    have "?S + ?d \<noteq> ?E" using ne add by (auto simp: word_unat_eq_iff)
    with gap have lt: "?S + ?d < ?E" by simp
    have R2: "ranges_from ?b ?lim ?b ?d (r\<lparr>Start := Start r + ucast DS\<rparr> # rest)"
      using r R' lt aligned_add [OF r(4,1)] by (simp add: add)
    show ?thesis
      using lim R2 r hs self d0 by (auto simp: page_inv_def Let_def in_ranges_Cons add)
  qed
qed

lemma heap_invI:
  assumes "NumDescriptors this = N" and "m_DescriptorSize this = DS"
    and "\<And>i. i < length (m_Heaps this) \<Longrightarrow>
           page_inv (unat DS) (unat N * unat DS) {h. (h, i) \<in> set outs} (m_Heaps this ! i)"
    and "\<And>i. i \<in> set (m_FreeHeaps this) \<Longrightarrow> i < length (m_Heaps this)"
    and "\<And>h i. (h, i) \<in> set outs \<Longrightarrow> i < length (m_Heaps this)"
  shows "heap_inv N DS (this, outs)"
  using assms by (auto simp: heap_inv_def)

lemma heap_invD:
  assumes "heap_inv N DS (this, outs)"
  shows "NumDescriptors this = N" and "m_DescriptorSize this = DS"
    and "\<And>i. i < length (m_Heaps this) \<Longrightarrow>
           page_inv (unat DS) (unat N * unat DS) {h. (h, i) \<in> set outs} (m_Heaps this ! i)"
    and "\<And>i. i \<in> set (m_FreeHeaps this) \<Longrightarrow> i < length (m_Heaps this)"
    and "\<And>h i. (h, i) \<in> set outs \<Longrightarrow> i < length (m_Heaps this)"
  using assms by (auto simp: heap_inv_def)

lemma new_heap_inv: "heap_inv N DS (new_CDescriptorHeapManager N DS, [])"
  by (simp add: heap_inv_def new_CDescriptorHeapManager_def)

text \<open>What a successful \<open>TakeHeapSlot\<close> did.\<close>

lemma TakeHeapSlot_Inr:
  assumes "TakeHeapSlot this = (Inr (h, i), this')"
  obtains r rest others where "m_FreeHeaps this = i # others" and "i < length (m_Heaps this)"
    and "m_FreeList (m_Heaps this ! i) = r # rest" and "h = Start r"
    and "Start r + ucast (m_DescriptorSize this) = End r \<Longrightarrow>
           this' = this\<lparr>m_Heaps := (m_Heaps this)[i := (m_Heaps this ! i)\<lparr>m_FreeList := rest\<rparr>],
                        m_FreeHeaps := (if rest = [] then others else m_FreeHeaps this)\<rparr>"
    and "Start r + ucast (m_DescriptorSize this) \<noteq> End r \<Longrightarrow>
           this' = this\<lparr>m_Heaps := (m_Heaps this)[i := (m_Heaps this ! i)\<lparr>m_FreeList :=
                          r\<lparr>Start := Start r + ucast (m_DescriptorSize this)\<rparr> # rest\<rparr>]\<rparr>"
proof (cases "m_FreeHeaps this")
  case Nil
  with assms show thesis by (simp add: TakeHeapSlot_def)
next
  case (Cons index others)
  show thesis
  proof (cases "index < length (m_Heaps this)")
    case False
    with assms Cons show thesis by (simp add: TakeHeapSlot_def)
  next
    case True
    show thesis
    proof (cases "m_FreeList (m_Heaps this ! index)")
      case Nil
      with assms Cons True show thesis by (simp add: TakeHeapSlot_def)
    next
      case (Cons r rest)
      from assms \<open>m_FreeHeaps this = index # others\<close> True Cons
      have "i = index" "h = Start r"
        by (simp_all add: TakeHeapSlot_def Let_def split: if_splits)
      with assms \<open>m_FreeHeaps this = index # others\<close> True Cons show thesis
        by (intro that [of others r rest]) (simp_all add: TakeHeapSlot_def Let_def)
    qed
  qed
qed

lemma TakeHeapSlot_Inl:
  assumes "TakeHeapSlot this = (Inl e, this')"
  shows "e = undefined_behavior"
  using assms
  by (auto simp: TakeHeapSlot_def Let_def split: list.splits if_splits)

lemma heap_inv_TakeHeapSlot:
  assumes inv: "heap_inv N DS (this, outs)" and d0: "0 < unat DS"
    and take: "TakeHeapSlot this = (Inr (h, i), this')"
  shows "heap_inv N DS (this', (h, i) # outs)"
proof -
  note D = heap_invD [OF inv]
  obtain r rest others where fh: "m_FreeHeaps this = i # others" and i: "i < length (m_Heaps this)"
    and fl: "m_FreeList (m_Heaps this ! i) = r # rest" and h: "h = Start r"
    and full: "Start r + ucast DS = End r \<Longrightarrow>
           this' = this\<lparr>m_Heaps := (m_Heaps this)[i := (m_Heaps this ! i)\<lparr>m_FreeList := rest\<rparr>],
                        m_FreeHeaps := (if rest = [] then others else m_FreeHeaps this)\<rparr>"
    and part: "Start r + ucast DS \<noteq> End r \<Longrightarrow>
           this' = this\<lparr>m_Heaps := (m_Heaps this)[i := (m_Heaps this ! i)\<lparr>m_FreeList :=
                          r\<lparr>Start := Start r + ucast DS\<rparr> # rest\<rparr>]\<rparr>"
    using TakeHeapSlot_Inr [OF take] unfolding D(2) by metis
  let ?page = "m_Heaps this ! i"
  let ?hs = "\<lambda>j. {k. (k, j) \<in> set outs}"
  have hs_i: "{k. (k, i) \<in> set ((h, i) # outs)} = insert h (?hs i)" by auto
  have hs_j: "{k. (k, j) \<in> set ((h, i) # outs)} = ?hs j" if "j \<noteq> i" for j
    using that by auto
  note pt = page_inv_take [OF D(3) [OF i] d0 fl]
  obtain page' fh' where this': "this' = this\<lparr>m_Heaps := (m_Heaps this)[i := page'], m_FreeHeaps := fh'\<rparr>"
    and page': "page_inv (unat DS) (unat N * unat DS) (insert h (?hs i)) page'"
    and fh': "set fh' \<subseteq> set (m_FreeHeaps this)"
  proof (cases "Start r + ucast DS = End r")
    case True
    show thesis
      using full [OF True] pt(2) [OF True] fh
      by (intro that [where page' = "?page\<lparr>m_FreeList := rest\<rparr>"
            and fh' = "if rest = [] then others else m_FreeHeaps this"])
         (auto simp: h)
  next
    case False
    show thesis
      using part [OF False] pt(3) [OF False]
      by (intro that [where page' = "?page\<lparr>m_FreeList := r\<lparr>Start := Start r + ucast DS\<rparr> # rest\<rparr>"
            and fh' = "m_FreeHeaps this"]) (auto simp: h)
  qed
  show ?thesis
  proof (rule heap_invI)
    show "NumDescriptors this' = N" "m_DescriptorSize this' = DS"
      using D(1,2) by (simp_all add: this')
    show "page_inv (unat DS) (unat N * unat DS) {k. (k, j) \<in> set ((h, i) # outs)} (m_Heaps this' ! j)"
      if "j < length (m_Heaps this')" for j
    proof (cases "j = i")
      case True
      then have "m_Heaps this' ! j = page'" using i by (simp add: this')
      then show ?thesis using page' True by (simp only: hs_i)
    next
      case False
      then have "m_Heaps this' ! j = m_Heaps this ! j" by (simp add: this')
      moreover have "j < length (m_Heaps this)" using that by (simp add: this')
      ultimately show ?thesis using D(3) [of j] by (simp only: hs_j [OF False])
    qed
    show "j < length (m_Heaps this')" if "j \<in> set (m_FreeHeaps this')" for j
      using that fh' D(4) [of j] by (auto simp: this')
    show "j < length (m_Heaps this')" if "(k, j) \<in> set ((h, i) # outs)" for k j
      using that i D(5) [of k j] by (auto simp: this')
  qed
qed

lemma TakeHeapSlot_params:
  assumes "TakeHeapSlot this = (res, this')"
  shows "NumDescriptors this' = NumDescriptors this \<and> m_DescriptorSize this' = m_DescriptorSize this
         \<and> length (m_Heaps this') = length (m_Heaps this)"
  using assms
  by (auto simp: TakeHeapSlot_def Let_def split: list.splits if_splits)

text \<open>A new page satisfies the page invariant with no handle outstanding.\<close>

lemma heap_inv_AllocateHeap:
  assumes inv: "heap_inv N DS (this, outs)" and cfg: "heap_config_ok N DS"
    and ok: "heap_call_ok N DS (AllocateHeapSlot_call dev oom)"
    and alloc: "AllocateHeap dev oom this = (e, this')"
  shows "heap_inv N DS (this', outs)" and "e = None \<Longrightarrow> m_FreeHeaps this' \<noteq> []"
proof -
  note D = heap_invD [OF inv]
  have both: "heap_inv N DS (this', outs) \<and> (e = None \<longrightarrow> m_FreeHeaps this' \<noteq> [])"
  proof (cases dev)
    case None
    with alloc inv show ?thesis by (auto simp: AllocateHeap_def)
  next
    case (Some HeapBase)
    let ?d = "unat DS" and ?sz = "unat N * unat DS" and ?b = "unat HeapBase"
    let ?new = "\<lparr>m_Heap = HeapBase,
        m_FreeList = [\<lparr>Start = HeapBase, End = HeapBase + ucast (N * DS)\<rparr>]\<rparr>"
    from cfg have d0: "0 < ?d" and sz0: "0 < ?sz" and sz32: "?sz < 2 ^ 32"
      by (simp_all add: heap_config_ok_def)
    from ok Some have lim: "?b + ?sz < 2 ^ 64" by simp
    have prod: "unat (N * DS) = ?sz"
      using sz32 by (simp add: unat_word_ariths)
    have "unat (ucast (N * DS) :: u64) = ?sz"
      by (simp add: unat_ucast_32_64 prod)
    then have E: "unat (HeapBase + ucast (N * DS)) = ?b + ?sz"
      using lim by (simp add: unat_word_ariths)
    have new: "page_inv ?d ?sz {} ?new"
      using lim sz0 by (simp add: page_inv_def Let_def E)
    have none: "{k. (k, length (m_Heaps this)) \<in> set outs} = {}"
      using D(5) by fastforce
    have grown: "heap_inv N DS (this\<lparr>m_Heaps := m_Heaps this @ [?new]\<rparr>, outs)"
    proof (rule heap_invI)
      show "page_inv ?d ?sz {k. (k, j) \<in> set outs} (m_Heaps (this\<lparr>m_Heaps := m_Heaps this @ [?new]\<rparr>) ! j)"
        if "j < length (m_Heaps (this\<lparr>m_Heaps := m_Heaps this @ [?new]\<rparr>))" for j
      proof (cases "j < length (m_Heaps this)")
        case True
        then show ?thesis using D(3) [OF True] by (simp add: nth_append)
      next
        case False
        with that have "j = length (m_Heaps this)" by simp
        then show ?thesis using new none by (simp add: nth_append)
      qed
    qed (use D in \<open>auto simp: less_Suc_eq\<close>)
    have final: "heap_inv N DS
        (this\<lparr>m_Heaps := m_Heaps this @ [?new],
              m_FreeHeaps := m_FreeHeaps this @ [length (m_Heaps this)]\<rparr>, outs)"
      using grown by (auto simp: heap_inv_def)
    consider "oom = Some 0" | "oom \<noteq> Some 0" "oom = Some 1"
      | "oom \<noteq> Some 0" "oom \<noteq> Some 1" "oom = Some 2"
      | "oom \<noteq> Some 0" "oom \<noteq> Some 1" "oom \<noteq> Some 2"
      by blast
    then show ?thesis
    proof cases
      case 1
      with alloc Some inv show ?thesis by (auto simp: AllocateHeap_def)
    next
      case 2
      with alloc Some inv show ?thesis by (auto simp: AllocateHeap_def Let_def)
    next
      case 3
      with alloc Some grown D(1,2) show ?thesis by (auto simp: AllocateHeap_def Let_def)
    next
      case 4
      with alloc Some final D(1,2) show ?thesis by (auto simp: AllocateHeap_def Let_def)
    qed
  qed
  from both show "heap_inv N DS (this', outs)" by simp
  from both show "e = None \<Longrightarrow> m_FreeHeaps this' \<noteq> []" by simp
qed

lemma heap_inv_FreeHeapSlot:
  assumes inv: "heap_inv N DS (this, outs)" and d0: "0 < unat DS"
    and out: "(h, i) \<in> set outs"
  obtains this' where "FreeHeapSlot h i oom this = Some this'"
    and "heap_inv N DS (this', removeAll (h, i) outs)"
proof -
  note D = heap_invD [OF inv]
  have i: "i < length (m_Heaps this)" by (rule D(5) [OF out])
  let ?page = "m_Heaps this ! i"
  let ?outs' = "removeAll (h, i) outs"
  let ?new = "\<lparr>Start = h, End = h + ucast DS\<rparr>"
  have hs_i: "{k. (k, i) \<in> set ?outs'} = {k. (k, i) \<in> set outs} - {h}" by auto
  have hs_j: "{k. (k, j) \<in> set ?outs'} = {k. (k, j) \<in> set outs}" if "j \<noteq> i" for j
    using that by auto
  have hin: "h \<in> {k. (k, i) \<in> set outs}" using out by simp
  note pf = page_inv_free [OF D(3) [OF i] d0 hin, of oom]
  have keep: "page_inv (unat DS) (unat N * unat DS) ({k. (k, i) \<in> set outs} - {h}) ?page"
    by (rule page_inv_subset [OF D(3) [OF i]]) blast
  have upd: "heap_inv N DS (this\<lparr>m_Heaps := (m_Heaps this)[i := page'], m_FreeHeaps := fh'\<rparr>, ?outs')"
    if "page_inv (unat DS) (unat N * unat DS) ({k. (k, i) \<in> set outs} - {h}) page'"
      and "set fh' \<subseteq> insert i (set (m_FreeHeaps this))" for page' fh'
  proof (rule heap_invI)
    let ?t = "this\<lparr>m_Heaps := (m_Heaps this)[i := page'], m_FreeHeaps := fh'\<rparr>"
    show "NumDescriptors ?t = N" "m_DescriptorSize ?t = DS" using D(1,2) by simp_all
    show "page_inv (unat DS) (unat N * unat DS) {k. (k, j) \<in> set ?outs'} (m_Heaps ?t ! j)"
      if "j < length (m_Heaps ?t)" for j
    proof (cases "j = i")
      case True
      then have "m_Heaps ?t ! j = page'" using i by simp
      then show ?thesis using \<open>page_inv _ _ _ page'\<close> True by (simp only: hs_i)
    next
      case False
      then have "m_Heaps ?t ! j = m_Heaps this ! j" by simp
      moreover have "j < length (m_Heaps this)" using that by simp
      ultimately show ?thesis using D(3) [of j] by (simp only: hs_j [OF False])
    qed
    show "j < length (m_Heaps ?t)" if "j \<in> set (m_FreeHeaps ?t)" for j
      using that \<open>set fh' \<subseteq> _\<close> i D(4) [of j] by auto
    show "j < length (m_Heaps ?t)" if "(k, j) \<in> set ?outs'" for k j
      using that D(5) [of k j] by auto
  qed
  have same: "this\<lparr>m_Heaps := (m_Heaps this)[i := ?page], m_FreeHeaps := m_FreeHeaps this\<rparr> = this"
    by simp
  show thesis
  proof (cases "FreeList_walk h DS oom (m_FreeList ?page)")
    case (Found fl')
    have "FreeHeapSlot h i oom this
        = Some (this\<lparr>m_Heaps := (m_Heaps this)[i := ?page\<lparr>m_FreeList := fl'\<rparr>]\<rparr>)"
      using i Found by (simp add: FreeHeapSlot_def Let_def D(2))
    moreover have "heap_inv N DS
        (this\<lparr>m_Heaps := (m_Heaps this)[i := ?page\<lparr>m_FreeList := fl'\<rparr>],
              m_FreeHeaps := m_FreeHeaps this\<rparr>, ?outs')"
      by (rule upd [OF pf(1) [OF Found]]) blast
    ultimately show thesis by (intro that) simp_all
  next
    case Threw
    have "FreeHeapSlot h i oom this = Some this"
      using i Threw by (simp add: FreeHeapSlot_def Let_def D(2))
    moreover have "heap_inv N DS (this, ?outs')"
      using upd [OF keep, of "m_FreeHeaps this"] by (simp add: same subset_insertI)
    ultimately show thesis by (rule that)
  next
    case NotFound
    note app = pf(2) [OF NotFound]
    have kept: "heap_inv N DS (this, ?outs')"
      using upd [OF keep, of "m_FreeHeaps this"] by (simp add: same subset_insertI)
    have pushed: "heap_inv N DS (this\<lparr>m_FreeHeaps := m_FreeHeaps this @ [i]\<rparr>, ?outs')"
      using upd [OF keep, of "m_FreeHeaps this @ [i]"] by auto
    have app1: "heap_inv N DS
        (this\<lparr>m_Heaps := (m_Heaps this)[i := ?page\<lparr>m_FreeList := m_FreeList ?page @ [?new]\<rparr>]\<rparr>, ?outs')"
      using upd [OF app, of "m_FreeHeaps this"] by (simp add: subset_insertI)
    have app2: "heap_inv N DS
        (this\<lparr>m_FreeHeaps := m_FreeHeaps this @ [i],
              m_Heaps := (m_Heaps this)[i := ?page\<lparr>m_FreeList := [?new]\<rparr>]\<rparr>, ?outs')"
      if "m_FreeList ?page = []"
    proof -
      have "this\<lparr>m_FreeHeaps := m_FreeHeaps this @ [i],
              m_Heaps := (m_Heaps this)[i := ?page\<lparr>m_FreeList := [?new]\<rparr>]\<rparr>
          = this\<lparr>m_Heaps := (m_Heaps this)[i := ?page\<lparr>m_FreeList := [?new]\<rparr>],
              m_FreeHeaps := m_FreeHeaps this @ [i]\<rparr>"
        by (cases this) simp
      moreover have "heap_inv N DS
          (this\<lparr>m_Heaps := (m_Heaps this)[i := ?page\<lparr>m_FreeList := [?new]\<rparr>],
              m_FreeHeaps := m_FreeHeaps this @ [i]\<rparr>, ?outs')"
        using upd [OF app, of "m_FreeHeaps this @ [i]"] that by auto
      ultimately show ?thesis by (simp only:)
    qed
    show thesis
    proof (cases "m_FreeList ?page = []")
      case True
      consider "oom = Some 0" | "oom \<noteq> Some 0" "oom = Some 1" | "oom \<noteq> Some 0" "oom \<noteq> Some 1"
        by blast
      then show thesis
      proof cases
        case 1
        then have "FreeHeapSlot h i oom this = Some this"
          using i NotFound True by (simp add: FreeHeapSlot_def Let_def D(2))
        then show thesis using kept by (rule that)
      next
        case 2
        then have "FreeHeapSlot h i oom this = Some (this\<lparr>m_FreeHeaps := m_FreeHeaps this @ [i]\<rparr>)"
          using i NotFound True by (simp add: FreeHeapSlot_def Let_def D(2))
        then show thesis using pushed by (rule that)
      next
        case 3
        then have "FreeHeapSlot h i oom this
            = Some (this\<lparr>m_FreeHeaps := m_FreeHeaps this @ [i],
                    m_Heaps := (m_Heaps this)[i := ?page\<lparr>m_FreeList := [?new]\<rparr>]\<rparr>)"
          using i NotFound True by (simp add: FreeHeapSlot_def Let_def D(2))
        then show thesis using app2 [OF True] by (rule that)
      qed
    next
      case False
      show thesis
      proof (cases "oom = Some 0")
        case True
        then have "FreeHeapSlot h i oom this = Some this"
          using i NotFound False by (simp add: FreeHeapSlot_def Let_def D(2))
        then show thesis using kept by (rule that)
      next
        case nooom: False
        then have "FreeHeapSlot h i oom this
            = Some (this\<lparr>m_Heaps := (m_Heaps this)[i := ?page\<lparr>m_FreeList := m_FreeList ?page @ [?new]\<rparr>]\<rparr>)"
          using i NotFound False by (simp add: FreeHeapSlot_def Let_def D(2))
        then show thesis using app1 by (rule that)
      qed
    qed
  qed
qed

lemma heap_step_inv:
  assumes inv: "heap_inv N DS st" and cfg: "heap_config_ok N DS"
    and ok: "heap_call_ok N DS c" and step: "heap_step c st = Some st'"
  shows "heap_inv N DS st'"
proof -
  obtain this outs where st: "st = (this, outs)" by (cases st)
  from cfg have d0: "0 < unat DS" by (simp add: heap_config_ok_def)
  show ?thesis
  proof (cases c)
    case (FreeHeapSlot_call h i oom)
    with step st have out: "(h, i) \<in> set outs"
      by (simp split: if_splits)
    obtain this' where "FreeHeapSlot h i oom this = Some this'"
      and "heap_inv N DS (this', removeAll (h, i) outs)"
      using heap_inv_FreeHeapSlot [OF inv [unfolded st] d0 out] by blast
    with step st FreeHeapSlot_call out show ?thesis by simp
  next
    case (AllocateHeapSlot_call dev oom)
    obtain res this' where res: "AllocateHeapSlot dev oom this = (res, this')"
      by (cases "AllocateHeapSlot dev oom this")
    have take: "heap_inv N DS st'" if "TakeHeapSlot t = (res, this')" "heap_inv N DS (t, outs)" for t
    proof (cases res)
      case (Inl e)
      with that(1) have "e = undefined_behavior" by (simp add: TakeHeapSlot_Inl)
      with step st AllocateHeapSlot_call res Inl show ?thesis by simp
    next
      case (Inr hi)
      obtain h i where hi: "hi = (h, i)" by (cases hi)
      have "heap_inv N DS (this', (h, i) # outs)"
        using heap_inv_TakeHeapSlot [OF that(2) d0] that(1) Inr hi by simp
      with step st AllocateHeapSlot_call res Inr hi show ?thesis by simp
    qed
    show ?thesis
    proof (cases "m_FreeHeaps this = []")
      case False
      with res have "TakeHeapSlot this = (res, this')" by (simp add: AllocateHeapSlot_def)
      then show ?thesis using inv st by (intro take) simp_all
    next
      case True
      obtain e this1 where ah: "AllocateHeap dev oom this = (e, this1)"
        by (cases "AllocateHeap dev oom this")
      have inv1: "heap_inv N DS (this1, outs)"
        using heap_inv_AllocateHeap(1) [OF inv [unfolded st] cfg _ ah] ok AllocateHeapSlot_call
        by simp
      show ?thesis
      proof (cases e)
        case None
        with res True ah have "TakeHeapSlot this1 = (res, this')"
          by (simp add: AllocateHeapSlot_def)
        then show ?thesis using inv1 by (rule take)
      next
        case (Some x)
        with res True ah have r: "res = Inl x" "this' = this1"
          by (simp_all add: AllocateHeapSlot_def)
        from step st AllocateHeapSlot_call res r have "st' = (this1, outs)"
          by (cases x) simp_all
        with inv1 show ?thesis by simp
      qed
    qed
  qed
qed

lemma heap_run_inv:
  assumes "heap_inv N DS st" and "heap_config_ok N DS"
    and "list_all (heap_call_ok N DS) calls" and "heap_run calls st = Some st'"
  shows "heap_inv N DS st'"
  using assms
proof (induction calls arbitrary: st)
  case Nil
  then show ?case by simp
next
  case (Cons c calls)
  from Cons.prems(4) obtain st1 where s1: "heap_step c st = Some st1"
    and r: "heap_run calls st1 = Some st'"
    by (auto split: option.splits)
  have "heap_inv N DS st1"
    using heap_step_inv [OF Cons.prems(1,2) _ s1] Cons.prems(3) by simp
  then show ?case using Cons.prems(2,3) r by (intro Cons.IH) simp_all
qed

lemma page_inv_sorted:
  assumes "page_inv d sz hs page"
  shows "sorted_by_Start (m_FreeList page)" and "non_overlapping (m_FreeList page)"
proof -
  from assms have "ranges_from (unat (m_Heap page)) (unat (m_Heap page) + sz)
      (unat (m_Heap page)) d (m_FreeList page)"
    by (simp add: page_inv_def Let_def)
  from ranges_from_sorted [OF this]
  show "sorted_by_Start (m_FreeList page)" and "non_overlapping (m_FreeList page)"
    by (simp_all add: sorted_by_Start_def non_overlapping_def)
qed

lemma TakeHeapSlot_first:
  assumes "m_FreeHeaps s = i # others" and "i < length (m_Heaps s)"
    and "m_FreeList (m_Heaps s ! i) = x # xs"
  shows "\<exists>s'. TakeHeapSlot s = (Inr (Start x, i), s')"
  using assms by (simp add: TakeHeapSlot_def Let_def)

lemma take_free_take:
  assumes inv: "heap_inv N DS (this, outs)" and d0: "0 < unat DS"
    and take: "TakeHeapSlot this = (Inr (h, i), this1)"
    and cond: "m_FreeList (m_Heaps this1 ! i) \<noteq> [] \<or> m_FreeHeaps this1 = []"
  shows "\<exists>this2 this3. FreeHeapSlot h i None this1 = Some this2 \<and> m_FreeHeaps this2 \<noteq> []
           \<and> TakeHeapSlot this2 = (Inr (h, i), this3)"
proof -
  note D = heap_invD [OF inv]
  obtain r rest others where fh: "m_FreeHeaps this = i # others" and i: "i < length (m_Heaps this)"
    and fl: "m_FreeList (m_Heaps this ! i) = r # rest" and h: "h = Start r"
    and full: "Start r + ucast DS = End r \<Longrightarrow>
           this1 = this\<lparr>m_Heaps := (m_Heaps this)[i := (m_Heaps this ! i)\<lparr>m_FreeList := rest\<rparr>],
                        m_FreeHeaps := (if rest = [] then others else m_FreeHeaps this)\<rparr>"
    and part: "Start r + ucast DS \<noteq> End r \<Longrightarrow>
           this1 = this\<lparr>m_Heaps := (m_Heaps this)[i := (m_Heaps this ! i)\<lparr>m_FreeList :=
                          r\<lparr>Start := Start r + ucast DS\<rparr> # rest\<rparr>]\<rparr>"
    using TakeHeapSlot_Inr [OF take] unfolding D(2) by metis
  let ?page = "m_Heaps this ! i"
  let ?d = "unat DS" and ?b = "unat (m_Heap ?page)"
  let ?lim = "?b + unat N * ?d"
  have pinv: "page_inv ?d (unat N * ?d) {k. (k, i) \<in> set outs} ?page" by (rule D(3) [OF i])
  then have R: "ranges_from ?b ?lim ?b ?d (r # rest)"
    by (simp add: page_inv_def Let_def fl)
  note add = page_inv_take(1) [OF pinv d0 fl]
  have found: "\<exists>this2 this3. FreeHeapSlot h i None this1 = Some this2 \<and> m_FreeHeaps this2 \<noteq> []
           \<and> TakeHeapSlot this2 = (Inr (h, i), this3)"
    if len: "length (m_Heaps this1) = length (m_Heaps this)"
      and ds: "m_DescriptorSize this1 = DS"
      and fh1: "m_FreeHeaps this1 = i # others"
      and walk: "FreeList_walk h DS None (m_FreeList (m_Heaps this1 ! i)) = Found (x # xs)"
      and x: "Start x = h" for x xs
  proof -
    let ?this2 = "this1\<lparr>m_Heaps := (m_Heaps this1)[i := (m_Heaps this1 ! i)\<lparr>m_FreeList := x # xs\<rparr>]\<rparr>"
    have "FreeHeapSlot h i None this1 = Some ?this2"
      using i len walk by (simp add: FreeHeapSlot_def Let_def ds)
    moreover have "\<exists>s'. TakeHeapSlot ?this2 = (Inr (Start x, i), s')"
      using i len fh1 by (intro TakeHeapSlot_first [where others = others and xs = xs]) simp_all
    ultimately show ?thesis using fh1 x by auto
  qed
  show ?thesis
  proof (cases "Start r + ucast DS = End r")
    case False
    note t1 = part [OF False]
    have "FreeList_walk h DS None (m_FreeList (m_Heaps this1 ! i)) = Found (r # rest)"
      using i by (simp add: t1 h)
    then show ?thesis
      using D(2) fh by (intro found [of r rest]) (simp_all add: t1 h)
  next
    case True
    note t1 = full [OF True]
    have E: "unat (End r) = unat h + ?d" using True add by (simp add: h)
    show ?thesis
    proof (cases rest)
      case (Cons r2 rest')
      from R Cons have r2: "unat (End r) \<le> unat (Start r2)" "unat (Start r2) < unat (End r2)"
        by simp_all
      have fl1: "m_FreeList (m_Heaps this1 ! i) = r2 # rest'"
        using i Cons by (simp add: t1)
      have fh1: "m_FreeHeaps this1 = i # others" using Cons fh by (simp add: t1)
      have ne: "End r2 \<noteq> h" using r2 E by (auto simp: word_unat_eq_iff)
      have gt: "Start r2 > h" using r2 E d0 by (simp add: word_less_nat_alt)
      show ?thesis
      proof (cases "Start r2 = h + ucast DS")
        case True
        then have "FreeList_walk h DS None (m_FreeList (m_Heaps this1 ! i))
            = Found (r2\<lparr>Start := h\<rparr> # rest')"
          by (simp add: fl1)
        then show ?thesis
          using D(2) fh1 by (intro found [of "r2\<lparr>Start := h\<rparr>" rest']) (simp_all add: t1)
      next
        case False
        then have "FreeList_walk h DS None (m_FreeList (m_Heaps this1 ! i))
            = Found (\<lparr>Start = h, End = h + ucast DS\<rparr> # r2 # rest')"
          using ne gt by (simp add: fl1)
        then show ?thesis
          using D(2) fh1
          by (intro found [of "\<lparr>Start = h, End = h + ucast DS\<rparr>" "r2 # rest'"]) (simp_all add: t1)
      qed
    next
      case Nil
      have fl1: "m_FreeList (m_Heaps this1 ! i) = []" using i Nil by (simp add: t1)
      with cond have fh1: "m_FreeHeaps this1 = []" by simp
      let ?new = "\<lparr>Start = h, End = h + ucast DS\<rparr>"
      let ?this2 = "this1\<lparr>m_FreeHeaps := [i],
          m_Heaps := (m_Heaps this1)[i := (m_Heaps this1 ! i)\<lparr>m_FreeList := [?new]\<rparr>]\<rparr>"
      have len: "length (m_Heaps this1) = length (m_Heaps this)" by (simp add: t1)
      have ds: "m_DescriptorSize this1 = DS" using D(2) by (simp add: t1)
      have "FreeHeapSlot h i None this1 = Some ?this2"
        using i len fl1 fh1 by (simp add: FreeHeapSlot_def Let_def ds)
      moreover have "\<exists>s'. TakeHeapSlot ?this2 = (Inr (Start ?new, i), s')"
        using i len by (intro TakeHeapSlot_first [where others = "[]" and xs = "[]"]) simp_all
      ultimately show ?thesis by auto
    qed
  qed
qed

lemma config_4_32: "heap_config_ok 4 32"
  by (simp add: heap_config_ok_def)

lemma config_1_32: "heap_config_ok 1 32"
  by (simp add: heap_config_ok_def)

lemma fragmenting_calls_ok: "list_all (heap_call_ok 4 32) fragmenting_calls"
  by (simp add: fragmenting_calls_def)

lemma two_page_calls_ok: "list_all (heap_call_ok 1 32) two_page_calls"
  by (simp add: two_page_calls_def)

subsection \<open>Runs that free only outstanding handles are defined\<close>

lemma FreeList_walk_Found_nonempty:
  "FreeList_walk h DS oom rs = Found rs' \<Longrightarrow> rs' \<noteq> []"
  by (cases rs) (auto split: if_splits walk.splits)

lemma free_heaps_inv_new: "free_heaps_inv (new_CDescriptorHeapManager N DS)"
  by (simp add: free_heaps_inv_def new_CDescriptorHeapManager_def)

lemma free_heaps_inv_TakeHeapSlot:
  assumes inv: "heap_inv N DS (this, outs)" and J: "free_heaps_inv this"
    and ne: "m_FreeHeaps this \<noteq> []"
  shows "\<exists>h i this'. TakeHeapSlot this = (Inr (h, i), this') \<and> free_heaps_inv this'"
proof -
  obtain i others where fh: "m_FreeHeaps this = i # others"
    using ne by (cases "m_FreeHeaps this") auto
  have i: "i < length (m_Heaps this)" using heap_invD(4) [OF inv, of i] fh by simp
  from J fh obtain r rest where fl: "m_FreeList (m_Heaps this ! i) = r # rest"
    by (cases "m_FreeList (m_Heaps this ! i)") (auto simp: free_heaps_inv_def)
  from J fh have d: "i \<notin> set others" "distinct others"
    and others: "\<forall>j \<in> set others. m_FreeList (m_Heaps this ! j) \<noteq> []"
    by (auto simp: free_heaps_inv_def)
  obtain this' where t: "TakeHeapSlot this = (Inr (Start r, i), this')"
    using TakeHeapSlot_first [OF fh i fl] by blast
  have "free_heaps_inv this'"
    using t fh i fl d others J
    by (auto simp: TakeHeapSlot_def Let_def free_heaps_inv_def nth_list_update split: if_splits)
  with t show ?thesis by blast
qed

lemma free_heaps_inv_AllocateHeap:
  assumes inv: "heap_inv N DS (this, outs)" and J: "free_heaps_inv this"
    and alloc: "AllocateHeap dev oom this = (e, this')"
  shows "free_heaps_inv this'"
proof -
  have lt: "\<forall>i \<in> set (m_FreeHeaps this). i < length (m_Heaps this)"
    using heap_invD(4) [OF inv] by blast
  then have "length (m_Heaps this) \<notin> set (m_FreeHeaps this)" by auto
  with alloc J lt show ?thesis
    by (auto simp: AllocateHeap_def Let_def free_heaps_inv_def nth_append
        split: option.splits if_splits)
qed

lemma free_heaps_inv_FreeHeapSlot:
  assumes J: "free_heaps_inv this" and oom: "oom \<noteq> Some 1"
    and free: "FreeHeapSlot h i oom this = Some this'"
  shows "free_heaps_inv this'"
proof -
  have i: "i < length (m_Heaps this)"
    using free by (auto simp: FreeHeapSlot_def split: if_splits)
  show ?thesis
  proof (cases "FreeList_walk h (m_DescriptorSize this) oom (m_FreeList (m_Heaps this ! i))")
    case (Found fl')
    then have "fl' \<noteq> []" by (rule FreeList_walk_Found_nonempty)
    with free i Found J show ?thesis
      by (auto simp: FreeHeapSlot_def Let_def free_heaps_inv_def nth_list_update
          split: if_splits)
  next
    case Threw
    with free i J show ?thesis by (simp add: FreeHeapSlot_def Let_def)
  next
    case NotFound
    show ?thesis
    proof (cases "m_FreeList (m_Heaps this ! i) = []")
      case True
      with J have "i \<notin> set (m_FreeHeaps this)" by (auto simp: free_heaps_inv_def)
      with free i NotFound True J oom show ?thesis
        by (auto simp: FreeHeapSlot_def Let_def free_heaps_inv_def nth_list_update
            split: if_splits)
    next
      case False
      with free i NotFound J show ?thesis
        by (auto simp: FreeHeapSlot_def Let_def free_heaps_inv_def nth_list_update
            split: if_splits)
    qed
  qed
qed

text \<open>A call that frees an outstanding handle is defined, unless a second insertion failed before.\<close>

lemma heap_step_defined:
  assumes inv: "heap_inv N DS st" and J: "free_heaps_inv (fst st)"
    and cfg: "heap_config_ok N DS" and ok: "heap_call_ok N DS c"
    and out: "free_outstanding c st" and ins: "\<not> second_insertion_fails c"
  shows "\<exists>st'. heap_step c st = Some st' \<and> free_heaps_inv (fst st')"
proof -
  obtain this outs where st: "st = (this, outs)" by (cases st)
  from cfg have d0: "0 < unat DS" by (simp add: heap_config_ok_def)
  note inv' = inv [unfolded st]
  from J have J': "free_heaps_inv this" by (simp add: st)
  show ?thesis
  proof (cases c)
    case (FreeHeapSlot_call h i oom)
    with out st have o: "(h, i) \<in> set outs" by simp
    obtain this' where f: "FreeHeapSlot h i oom this = Some this'"
      using heap_inv_FreeHeapSlot [OF inv' d0 o] by blast
    have "free_heaps_inv this'"
      using free_heaps_inv_FreeHeapSlot [OF J' _ f] ins FreeHeapSlot_call by simp
    with f o show ?thesis by (simp add: st FreeHeapSlot_call)
  next
    case (AllocateHeapSlot_call dev oom)
    have take: "\<exists>st'. heap_step c st = Some st' \<and> free_heaps_inv (fst st')"
      if a: "AllocateHeapSlot dev oom this = TakeHeapSlot t" and b: "heap_inv N DS (t, outs)"
        and c: "free_heaps_inv t" and d: "m_FreeHeaps t \<noteq> []" for t
    proof -
      obtain h i this' where "TakeHeapSlot t = (Inr (h, i), this')" "free_heaps_inv this'"
        using free_heaps_inv_TakeHeapSlot [OF b c d] by blast
      with a show ?thesis by (simp add: st AllocateHeapSlot_call)
    qed
    show ?thesis
    proof (cases "m_FreeHeaps this = []")
      case False
      then show ?thesis using inv' J' by (intro take [of this]) (simp_all add: AllocateHeapSlot_def)
    next
      case True
      obtain e this1 where ah: "AllocateHeap dev oom this = (e, this1)"
        by (cases "AllocateHeap dev oom this")
      have ok': "heap_call_ok N DS (AllocateHeapSlot_call dev oom)"
        using ok AllocateHeapSlot_call by simp
      note inv1 = heap_inv_AllocateHeap [OF inv' cfg ok' ah]
      have J1: "free_heaps_inv this1" by (rule free_heaps_inv_AllocateHeap [OF inv' J' ah])
      show ?thesis
      proof (cases e)
        case None
        then show ?thesis
          using inv1 J1 True ah by (intro take [of this1]) (simp_all add: AllocateHeapSlot_def)
      next
        case (Some x)
        then have "x \<noteq> undefined_behavior"
          using ah by (auto simp: AllocateHeap_def Let_def split: option.splits if_splits)
        then have "heap_step c st = Some (this1, outs)"
          using True ah Some by (cases x) (simp_all add: st AllocateHeapSlot_call AllocateHeapSlot_def)
        with J1 show ?thesis by simp
      qed
    qed
  qed
qed

lemma heap_run_defined:
  assumes "heap_inv N DS st" and "free_heaps_inv (fst st)" and "heap_config_ok N DS"
    and "list_all (heap_call_ok N DS) calls" and "frees_outstanding calls st"
    and "list_all (\<lambda>c. \<not> second_insertion_fails c) calls"
  shows "\<exists>st'. heap_run calls st = Some st'"
  using assms
proof (induction calls arbitrary: st)
  case Nil
  then show ?case by simp
next
  case (Cons c calls)
  obtain st1 where s1: "heap_step c st = Some st1" "free_heaps_inv (fst st1)"
    using heap_step_defined [OF Cons.prems(1,2,3), of c] Cons.prems(4,5,6) by auto
  have "heap_inv N DS st1"
    using heap_step_inv [OF Cons.prems(1,3) _ s1(1)] Cons.prems(4) by simp
  then have "\<exists>st'. heap_run calls st1 = Some st'"
    using s1 Cons.prems(3,4,5,6) by (intro Cons.IH) simp_all
  with s1(1) show ?case by simp
qed

lemma heap_run_new_defined:
  assumes "heap_config_ok N DS" and "list_all (heap_call_ok N DS) calls"
    and "frees_outstanding calls (new_CDescriptorHeapManager N DS, [])"
    and "list_all (\<lambda>c. \<not> second_insertion_fails c) calls"
  shows "\<exists>st'. heap_run calls (new_CDescriptorHeapManager N DS, []) = Some st'"
  using heap_run_defined [OF new_heap_inv _ assms] by (simp add: free_heaps_inv_new)

subsection \<open>The claims on the descriptor heap manager\<close>

text \<open>
  C2, as amended. For every page of \<open>CDescriptorHeapManager\<close>, after any sequence of
  \<open>AllocateHeapSlot\<close> and \<open>FreeHeapSlot\<close> calls in which every freed handle was
  previously allocated from that page and not yet freed (a run that is not \<open>None\<close>:
  by \<open>heap_run_new_defined\<close> every such sequence has one, unless the second insertion
  of a \<open>FreeHeapSlot\<close> ran out of memory),
  on pages whose byte size fits 32 bits and whose heaps lie in the address space: the
  page's free list is sorted by ascending \<open>Start\<close> and its ranges are pairwise
  non-overlapping. Adjacent ranges may touch.
\<close>

theorem C2_free_list_sorted:
  assumes "heap_config_ok NumDescriptorsPerHeap DescriptorSize"
    and "list_all (heap_call_ok NumDescriptorsPerHeap DescriptorSize) calls"
    and "heap_run calls (new_CDescriptorHeapManager NumDescriptorsPerHeap DescriptorSize, [])
           = Some (this, outstanding)"
    and "page \<in> set (m_Heaps this)"
  shows "sorted_by_Start (m_FreeList page) \<and> non_overlapping (m_FreeList page)"
proof -
  have "heap_inv NumDescriptorsPerHeap DescriptorSize (this, outstanding)"
    by (rule heap_run_inv [OF new_heap_inv assms(1,2,3)])
  moreover obtain i where "i < length (m_Heaps this)" "page = m_Heaps this ! i"
    using assms(4) by (auto simp: in_set_conv_nth)
  ultimately have "page_inv (unat DescriptorSize)
      (unat NumDescriptorsPerHeap * unat DescriptorSize) {h. (h, i) \<in> set outstanding} page"
    by (simp add: heap_invD(3))
  then show ?thesis by (simp add: page_inv_sorted)
qed

theorem C2_free_list_sorted_witness:
  "heap_config_ok 4 32 \<and> list_all (heap_call_ok 4 32) fragmenting_calls
   \<and> heap_run fragmenting_calls (new_CDescriptorHeapManager 4 32, [])
       = Some (\<lparr>NumDescriptors = 4, m_DescriptorSize = 32,
                 m_Heaps = [\<lparr>m_Heap = 0x1000, m_FreeList =
                    [\<lparr>Start = 0x1000, End = 0x1040\<rparr>, \<lparr>Start = 0x1040, End = 0x1060\<rparr>]\<rparr>],
                 m_FreeHeaps = [0]\<rparr>, [(0x1060, 0)])
   \<and> sorted_by_Start [\<lparr>Start = 0x1000, End = 0x1040\<rparr>, \<lparr>Start = 0x1040, End = 0x1060\<rparr>]
   \<and> non_overlapping [\<lparr>Start = 0x1000, End = 0x1040\<rparr>, \<lparr>Start = 0x1040, End = 0x1060\<rparr>]"
proof -
  let ?fl = "[\<lparr>Start = 0x1000, End = 0x1040\<rparr>, \<lparr>Start = 0x1040, End = 0x1060\<rparr>]"
  let ?page = "\<lparr>m_Heap = 0x1000, m_FreeList = ?fl\<rparr>"
  let ?mgr = "\<lparr>NumDescriptors = 4, m_DescriptorSize = 32, m_Heaps = [?page], m_FreeHeaps = [0]\<rparr>"
  have run: "heap_run fragmenting_calls (new_CDescriptorHeapManager 4 32, [])
      = Some (?mgr, [(0x1060, 0)])"
    by code_simp
  have "page \<in> set (m_Heaps ?mgr) \<Longrightarrow>
      sorted_by_Start (m_FreeList page) \<and> non_overlapping (m_FreeList page)" for page
    by (rule C2_free_list_sorted [OF config_4_32 fragmenting_calls_ok run])
  from this [of ?page] config_4_32 fragmenting_calls_ok run show ?thesis by simp
qed

text \<open>
  The claim as stated fails in its last part: two adjacent ranges can touch. On a page of
  four slots A, B, C, D at 0x1000, 0x1020, 0x1040, 0x1060, all allocated, freeing A and
  then C leaves the ranges \<open>[A, B)\<close> and \<open>[C, D)\<close>. Freeing B then finds that the
  first range ends at B and extends it to \<open>[A, C)\<close>; the loop stops there, and the
  range \<open>[C, D)\<close> that starts where the extended one ends is not merged with it.
\<close>

theorem C2_free_list_sorted_counterexample:
  "heap_config_ok 4 32 \<and> list_all (heap_call_ok 4 32) fragmenting_calls
   \<and> (case heap_run fragmenting_calls (new_CDescriptorHeapManager 4 32, []) of
         None \<Rightarrow> False
       | Some (this, outstanding) \<Rightarrow>
           outstanding = [(0x1060, 0)]
           \<and> map m_FreeList (m_Heaps this)
               = [[\<lparr>Start = 0x1000, End = 0x1040\<rparr>, \<lparr>Start = 0x1040, End = 0x1060\<rparr>]]
           \<and> \<not> no_adjacent_touch (m_FreeList (m_Heaps this ! 0)))"
proof -
  have "case heap_run fragmenting_calls (new_CDescriptorHeapManager 4 32, []) of
         None \<Rightarrow> False
       | Some (this, outstanding) \<Rightarrow>
           outstanding = [(0x1060, 0)]
           \<and> map m_FreeList (m_Heaps this)
               = [[\<lparr>Start = 0x1000, End = 0x1040\<rparr>, \<lparr>Start = 0x1040, End = 0x1060\<rparr>]]
           \<and> \<not> no_adjacent_touch (m_FreeList (m_Heaps this ! 0))"
    by code_simp
  with config_4_32 fragmenting_calls_ok show ?thesis by blast
qed

text \<open>
  C7, as amended. For any reachable state of \<open>CDescriptorHeapManager\<close>, the sequence
  \<open>h = AllocateHeapSlot(&i); FreeHeapSlot(h, i); AllocateHeapSlot()\<close> returns the same
  handle \<open>h\<close> (and index) again, provided that \<open>FreeHeapSlot\<close> does not run out of
  memory and that, after the first allocation, the page of \<open>h\<close> still has a free
  range or no page at all is left in \<^verbatim>\<open>m_FreeHeaps\<close>.
\<close>

theorem C7_allocate_free_allocate:
  assumes "heap_config_ok NumDescriptorsPerHeap DescriptorSize"
    and "list_all (heap_call_ok NumDescriptorsPerHeap DescriptorSize) calls"
    and "heap_run calls (new_CDescriptorHeapManager NumDescriptorsPerHeap DescriptorSize, [])
           = Some (this, outstanding)"
    and "heap_call_ok NumDescriptorsPerHeap DescriptorSize (AllocateHeapSlot_call dev oom)"
    and "AllocateHeapSlot dev oom this = (Inr (h, i), this1)"
    and "m_FreeList (m_Heaps this1 ! i) \<noteq> [] \<or> m_FreeHeaps this1 = []"
  shows "\<exists>this2 this3. FreeHeapSlot h i None this1 = Some this2
           \<and> AllocateHeapSlot dev' oom' this2 = (Inr (h, i), this3)"
proof -
  let ?N = NumDescriptorsPerHeap and ?DS = DescriptorSize
  have inv: "heap_inv ?N ?DS (this, outstanding)"
    by (rule heap_run_inv [OF new_heap_inv assms(1,2,3)])
  from assms(1) have d0: "0 < unat ?DS" by (simp add: heap_config_ok_def)
  obtain t where t: "TakeHeapSlot t = (Inr (h, i), this1)" "heap_inv ?N ?DS (t, outstanding)"
  proof (cases "m_FreeHeaps this = []")
    case False
    with assms(5) inv show thesis by (intro that [of this]) (simp_all add: AllocateHeapSlot_def)
  next
    case True
    obtain e t where ah: "AllocateHeap dev oom this = (e, t)"
      by (cases "AllocateHeap dev oom this")
    with assms(5) True have "e = None" "TakeHeapSlot t = (Inr (h, i), this1)"
      by (auto simp: AllocateHeapSlot_def split: option.splits)
    then show thesis
      using heap_inv_AllocateHeap(1) [OF inv assms(1,4) ah] by (intro that [of t])
  qed
  obtain this2 this3 where r: "FreeHeapSlot h i None this1 = Some this2" "m_FreeHeaps this2 \<noteq> []"
      "TakeHeapSlot this2 = (Inr (h, i), this3)"
    using take_free_take [OF t(2) d0 t(1) assms(6)] by blast
  then have "AllocateHeapSlot dev' oom' this2 = (Inr (h, i), this3)"
    by (simp add: AllocateHeapSlot_def)
  with r(1) show ?thesis by blast
qed

theorem C7_allocate_free_allocate_witness:
  "heap_config_ok 4 32 \<and> list_all (heap_call_ok 4 32) []
   \<and> heap_run [] (new_CDescriptorHeapManager 4 32, []) = Some (new_CDescriptorHeapManager 4 32, [])
   \<and> heap_call_ok 4 32 (AllocateHeapSlot_call (Some 0x1000) None)
   \<and> AllocateHeapSlot (Some 0x1000) None (new_CDescriptorHeapManager 4 32)
       = (Inr (0x1000, 0),
          \<lparr>NumDescriptors = 4, m_DescriptorSize = 32,
            m_Heaps = [\<lparr>m_Heap = 0x1000, m_FreeList = [\<lparr>Start = 0x1020, End = 0x1080\<rparr>]\<rparr>],
            m_FreeHeaps = [0]\<rparr>)
   \<and> (\<exists>this2 this3.
         FreeHeapSlot 0x1000 0 None
           \<lparr>NumDescriptors = 4, m_DescriptorSize = 32,
             m_Heaps = [\<lparr>m_Heap = 0x1000, m_FreeList = [\<lparr>Start = 0x1020, End = 0x1080\<rparr>]\<rparr>],
             m_FreeHeaps = [0]\<rparr> = Some this2
         \<and> AllocateHeapSlot None None this2 = (Inr (0x1000, 0), this3))"
proof -
  let ?mgr1 = "\<lparr>NumDescriptors = 4, m_DescriptorSize = 32,
            m_Heaps = [\<lparr>m_Heap = 0x1000, m_FreeList = [\<lparr>Start = 0x1020, End = 0x1080\<rparr>]\<rparr>],
            m_FreeHeaps = [0]\<rparr>"
  have ok: "list_all (heap_call_ok 4 32) []" by simp
  have run: "heap_run [] (new_CDescriptorHeapManager 4 32, []) = Some (new_CDescriptorHeapManager 4 32, [])"
    by simp
  have call: "heap_call_ok 4 32 (AllocateHeapSlot_call (Some 0x1000) None)" by simp
  have alloc: "AllocateHeapSlot (Some 0x1000) None (new_CDescriptorHeapManager 4 32)
      = (Inr (0x1000, 0), ?mgr1)"
    by code_simp
  have cond: "m_FreeList (m_Heaps ?mgr1 ! 0) \<noteq> [] \<or> m_FreeHeaps ?mgr1 = []" by simp
  from C7_allocate_free_allocate [OF config_4_32 ok run call alloc cond, of None None]
    config_4_32 ok run call alloc
  show ?thesis by blast
qed

text \<open>
  The claim as stated fails when the first allocation takes the last free slot of its
  page while another page has free slots. With pages of one slot, after allocating
  0x1000 from page 0 and 0x2000 from page 1 and freeing both, \<^verbatim>\<open>m_FreeHeaps\<close> is
  \<open>[0, 1]\<close>. \<open>AllocateHeapSlot\<close> returns 0x1000 of page 0 and pops page 0 from the
  list; \<open>FreeHeapSlot(0x1000, 0)\<close> pushes page 0 at the back, behind page 1; the next
  \<open>AllocateHeapSlot\<close> takes the front of the list and returns 0x2000 of page 1.
\<close>

theorem C7_allocate_free_allocate_counterexample:
  "heap_config_ok 1 32 \<and> list_all (heap_call_ok 1 32) two_page_calls
   \<and> (case heap_run two_page_calls (new_CDescriptorHeapManager 1 32, []) of
         None \<Rightarrow> False
       | Some (this, outstanding) \<Rightarrow>
           m_FreeHeaps this = [0, 1]
           \<and> (case AllocateHeapSlot None None this of
                 (Inl e, this1) \<Rightarrow> False
               | (Inr (h, i), this1) \<Rightarrow>
                   h = 0x1000 \<and> i = 0 \<and> m_FreeHeaps this1 = [1]
                   \<and> (case FreeHeapSlot h i None this1 of
                         None \<Rightarrow> False
                       | Some this2 \<Rightarrow>
                           m_FreeHeaps this2 = [1, 0]
                           \<and> fst (AllocateHeapSlot None None this2) = Inr (0x2000, 1))))"
proof -
  have "case heap_run two_page_calls (new_CDescriptorHeapManager 1 32, []) of
         None \<Rightarrow> False
       | Some (this, outstanding) \<Rightarrow>
           m_FreeHeaps this = [0, 1]
           \<and> (case AllocateHeapSlot None None this of
                 (Inl e, this1) \<Rightarrow> False
               | (Inr (h, i), this1) \<Rightarrow>
                   h = 0x1000 \<and> i = 0 \<and> m_FreeHeaps this1 = [1]
                   \<and> (case FreeHeapSlot h i None this1 of
                         None \<Rightarrow> False
                       | Some this2 \<Rightarrow>
                           m_FreeHeaps this2 = [1, 0]
                           \<and> fst (AllocateHeapSlot None None this2) = Inr (0x2000, 1)))"
    by code_simp
  with config_1_32 two_page_calls_ok show ?thesis by blast
qed

end
